theory Spec2Isabelle
  imports Main "HOL-Library.Sublist"
begin

section \<open>JavaScript strings\<close>

text \<open>
  A JavaScript string is a sequence of UTF-16 code units. The model uses \<open>string\<close>
  (\<open>char list\<close>), one \<open>char\<close> per code unit, and so covers the strings whose code
  units are below 256 (ASCII and Latin-1). The character classes below are the
  restrictions of the ECMAScript classes to that range.
\<close>

definition backslash :: char where
  "backslash = CHR 0x5C"

definition squote :: char where
  "squote = CHR 0x27"

definition dquote :: char where
  "dquote = CHR 0x22"

definition backtick :: char where
  "backtick = CHR 0x60"

text \<open>
  The regular-expression class \<open>\s\<close> (and the characters removed by \<open>trim\<close>):
  tab, line feed, vertical tab, form feed, carriage return, space, no-break space.
\<close>

definition isWhiteSpace :: "char \<Rightarrow> bool" where
  "isWhiteSpace c \<longleftrightarrow>
     c = CHR 0x09 \<or> c = CHR 0x0A \<or> c = CHR 0x0B \<or> c = CHR 0x0C \<or> c = CHR 0x0D \<or>
     c = CHR 0x20 \<or> c = CHR 0xA0"

text \<open>\<open>s.split(/\s+/)\<close>: every maximal run of white space is one separator; a string
  that starts (ends) with white space has an empty first (last) element, and the empty
  string splits into one empty element.\<close>

function splitWhitespace :: "string \<Rightarrow> string list" where
  "splitWhitespace [] = [[]]"
| "splitWhitespace (c # cs) =
     (if isWhiteSpace c then [] # splitWhitespace (dropWhile isWhiteSpace cs)
      else (case splitWhitespace cs of
              [] \<Rightarrow> [[c]]
            | t # ts \<Rightarrow> (c # t) # ts))"
  by pat_completeness auto
termination
  by (relation "measure length") (auto simp: length_dropWhile_le less_Suc_eq_le)

text \<open>\<open>parts.join(sep)\<close>\<close>

fun join :: "string \<Rightarrow> string list \<Rightarrow> string" where
  "join sep [] = []"
| "join sep [x] = x"
| "join sep (x # y # ys) = x @ sep @ join sep (y # ys)"

text \<open>\<open>s.trim()\<close>\<close>

definition trim :: "string \<Rightarrow> string" where
  "trim s = rev (dropWhile isWhiteSpace (rev (dropWhile isWhiteSpace s)))"

text \<open>\<open>s.toLowerCase()\<close> on code units below 256: \<open>A\<close>--\<open>Z\<close> and the Latin-1 capitals
  \<open>0xC0\<close>--\<open>0xDE\<close> (without the multiplication sign \<open>0xD7\<close>) move up by 32.\<close>

definition toLowerChar :: "char \<Rightarrow> char" where
  "toLowerChar c =
     (let n = (of_char c :: nat) in
      if (65 \<le> n \<and> n \<le> 90) \<or> (192 \<le> n \<and> n \<le> 222 \<and> n \<noteq> 215)
      then char_of (n + 32) else c)"

definition toLowerCase :: "string \<Rightarrow> string" where
  "toLowerCase s = map toLowerChar s"

text \<open>\<open>s.includes(p)\<close>\<close>

fun includesStr :: "string \<Rightarrow> string \<Rightarrow> bool" where
  "includesStr [] p \<longleftrightarrow> p = []"
| "includesStr (c # cs) p \<longleftrightarrow> take (length p) (c # cs) = p \<or> includesStr cs p"

section \<open>Normalizer\<close>

text \<open>\<open>normalized.replace(/''|""|``/g, '')\<close>: one scan from left to right; where two
  equal quote characters are adjacent both are dropped and the scan goes on behind them,
  otherwise one character is kept.\<close>

definition isQuote :: "char \<Rightarrow> bool" where
  "isQuote c \<longleftrightarrow> c = squote \<or> c = dquote \<or> c = backtick"

fun removeEmptyQuotes :: "string \<Rightarrow> string" where
  "removeEmptyQuotes (a # b # cs) =
     (if a = b \<and> isQuote a then removeEmptyQuotes cs
      else a # removeEmptyQuotes (b # cs))"
| "removeEmptyQuotes cs = cs"

text \<open>\<open>parts[0].replace(/\\/g, '')\<close>\<close>

definition removeBackslashes :: "string \<Rightarrow> string" where
  "removeBackslashes s = filter (\<lambda>c. c \<noteq> backslash) s"

definition normalizeCommand :: "string \<Rightarrow> string" where
  "normalizeCommand command =
     (let normalized = removeEmptyQuotes command;
          parts = splitWhitespace normalized
      in case parts of
           [] \<Rightarrow> normalized
         | p # ps \<Rightarrow> join '' '' (removeBackslashes p # ps))"

section \<open>Tokenizer / Segmenter\<close>

text \<open>
  \<open>path.basename\<close> of Node's \<open>path\<close> module in its POSIX form: trailing slashes are
  dropped, then the part behind the last remaining slash is returned.
\<close>

definition basename :: "string \<Rightarrow> string" where
  "basename p =
     (let r = dropWhile (\<lambda>c. c = CHR ''/'') (rev p)
      in rev (takeWhile (\<lambda>c. c \<noteq> CHR ''/'') r))"

definition extractCommandName :: "string \<Rightarrow> string" where
  "extractCommandName commandToken = basename commandToken"

text \<open>
  One anchored match of the separator expression \<open>\s*(?:\|\||&&|[|;&])\s*\<close> at the
  start of a string: the white space in front, then \<open>||\<close> or \<open>&&\<close> if present, else one
  of \<open>|\<close>, \<open>;\<close>, \<open>&\<close>, then the white space behind. The result is the text behind the
  match, or \<open>None\<close> when the expression does not match here.
\<close>

definition isOperatorChar :: "char \<Rightarrow> bool" where
  "isOperatorChar c \<longleftrightarrow> c = CHR ''|'' \<or> c = CHR '';'' \<or> c = CHR ''&''"

fun matchOperator :: "string \<Rightarrow> string option" where
  "matchOperator (a # b # cs) =
     (if a = CHR ''|'' \<and> b = CHR ''|'' then Some cs
      else if a = CHR ''&'' \<and> b = CHR ''&'' then Some cs
      else if isOperatorChar a then Some (b # cs)
      else None)"
| "matchOperator [a] = (if isOperatorChar a then Some [] else None)"
| "matchOperator [] = None"

definition matchSeparator :: "string \<Rightarrow> string option" where
  "matchSeparator s =
     (case matchOperator (dropWhile isWhiteSpace s) of
        None \<Rightarrow> None
      | Some rest \<Rightarrow> Some (dropWhile isWhiteSpace rest))"

text \<open>\<open>command.split(/\s*(?:\|\||&&|[|;&])\s*/)\<close>: the separator is tried at every
  position from the end of the last match on; the text in between is one segment.\<close>

function splitSeparators :: "string \<Rightarrow> string list" where
  "splitSeparators [] = [[]]"
| "splitSeparators (c # cs) =
     (case matchSeparator (c # cs) of
        Some rest \<Rightarrow> [] # splitSeparators rest
      | None \<Rightarrow> (case splitSeparators cs of
                   [] \<Rightarrow> [[c]]
                 | t # ts \<Rightarrow> (c # t) # ts))"
  by pat_completeness auto
termination
proof (relation "measure length")
  show "wf (measure length)" by simp
next
  fix c :: char and cs rest :: string
  assume "matchSeparator (c # cs) = Some rest"
  then obtain r0 where r0: "matchOperator (dropWhile isWhiteSpace (c # cs)) = Some r0"
    and r: "rest = dropWhile isWhiteSpace r0"
    by (auto simp: matchSeparator_def split: option.splits)
  have "length r0 < length s" if "matchOperator s = Some r0" for s
    using that by (induction s rule: matchOperator.induct) (auto split: if_splits)
  then have "length r0 < length (dropWhile isWhiteSpace (c # cs))"
    using r0 by blast
  also have "\<dots> \<le> length (c # cs)" by (rule length_dropWhile_le)
  finally have "length r0 < length (c # cs)" .
  moreover have "length rest \<le> length r0" using r by (simp add: length_dropWhile_le)
  ultimately show "(rest, c # cs) \<in> measure length" by simp
next
  fix c :: char and cs :: string
  show "(cs, c # cs) \<in> measure length" by simp
qed

definition wrappers :: "string list" where
  "wrappers = [''sudo'', ''env'', ''command'', ''nohup'', ''nice'', ''time'']"

text \<open>The wrapper loop of one segment: \<open>cmdToken\<close> starts as \<open>tokens[0]\<close> and is replaced
  by the first token that is not a wrapper, if there is one. \<open>None\<close> is \<open>undefined\<close>.\<close>

definition commandToken :: "string list \<Rightarrow> string option" where
  "commandToken tokens =
     (case dropWhile (\<lambda>t. t \<in> set wrappers) tokens of
        t # _ \<Rightarrow> Some t
      | [] \<Rightarrow> (case tokens of [] \<Rightarrow> None | t0 # _ \<Rightarrow> Some t0))"

text \<open>The body of the loop over the segments: \<open>None\<close> when the segment adds no name.\<close>

definition segmentCommandName :: "string \<Rightarrow> string option" where
  "segmentCommandName segment =
     (let trimmed = trim segment in
      if trimmed = [] then None
      else (case commandToken (splitWhitespace trimmed) of
              None \<Rightarrow> None
            | Some cmdToken \<Rightarrow>
                if cmdToken = [] then None else Some (extractCommandName cmdToken)))"

definition extractAllCommandNames :: "string \<Rightarrow> string list" where
  "extractAllCommandNames command =
     List.map_filter segmentCommandName (splitSeparators command)"

section \<open>Blocklist Matcher\<close>

text \<open>
  \<open>new RegExp(source, 'i')\<close> belongs to the JavaScript engine, not to the repository.
  It is a parameter of the model: \<open>Inl message\<close> is the \<open>SyntaxError\<close> thrown for a
  source that does not compile, \<open>Inr test\<close> the compiled expression with its \<open>test\<close>
  method.
\<close>

type_synonym regexpEngine = "string \<Rightarrow> string + (string \<Rightarrow> bool)"

definition isAsciiLetter :: "char \<Rightarrow> bool" where
  "isAsciiLetter c \<longleftrightarrow>
     (let n = (of_char c :: nat) in (65 \<le> n \<and> n \<le> 90) \<or> (97 \<le> n \<and> n \<le> 122))"

definition isDigit :: "char \<Rightarrow> bool" where
  "isDigit c \<longleftrightarrow> (let n = (of_char c :: nat) in 48 \<le> n \<and> n \<le> 57)"

text \<open>The class \<open>[a-z0-9_-]\<close> under the flag \<open>i\<close>.\<close>

definition isSimpleChar :: "char \<Rightarrow> bool" where
  "isSimpleChar c \<longleftrightarrow> isAsciiLetter c \<or> isDigit c \<or> c = CHR ''_'' \<or> c = CHR ''-''"

text \<open>\<open>/^[a-z0-9_-]+$/i.test(patternLower)\<close>\<close>

definition isSimpleCommand :: "string \<Rightarrow> bool" where
  "isSimpleCommand patternLower \<longleftrightarrow> patternLower \<noteq> [] \<and> list_all isSimpleChar patternLower"

text \<open>The escape \<open>\b\<close> as it stands in a pattern: a backslash and the letter b.\<close>

definition wordBoundary :: string where
  "wordBoundary = [backslash, CHR ''b'']"

text \<open>The callback of \<open>patterns.some\<close>.\<close>

definition patternBlocks :: "regexpEngine \<Rightarrow> string \<Rightarrow> string list \<Rightarrow> string \<Rightarrow> bool" where
  "patternBlocks RegExp_i normalizedCommand commandNames pattern =
     (let patternLower = trim (toLowerCase pattern) in
      if patternLower = [] then False
      else if list_ex (\<lambda>cmdName. toLowerCase cmdName = patternLower) commandNames then True
      else
        (let isSimple = isSimpleCommand patternLower;
             hasWordBoundary = includesStr pattern wordBoundary;
             regexPattern =
               (if isSimple
                then (if hasWordBoundary then pattern
                      else wordBoundary @ pattern @ wordBoundary)
                else pattern)
         in case RegExp_i regexPattern of
              Inr test \<Rightarrow> test normalizedCommand
            | Inl _ \<Rightarrow> includesStr (toLowerCase normalizedCommand) patternLower))"

definition isCommandBlocked :: "regexpEngine \<Rightarrow> string \<Rightarrow> string list \<Rightarrow> bool \<Rightarrow> bool" where
  "isCommandBlocked RegExp_i command patterns enableBlocklist =
     (if \<not> enableBlocklist \<or> command = [] then False
      else
        (let normalizedCommand = normalizeCommand command;
             commandNames = extractAllCommandNames normalizedCommand
         in list_ex (patternBlocks RegExp_i normalizedCommand commandNames) patterns))"

record validation =
  isValid :: bool
  error :: "string option"

definition validateBlocklistPattern :: "regexpEngine \<Rightarrow> string \<Rightarrow> validation" where
  "validateBlocklistPattern RegExp_i pattern =
     (if trim pattern = [] then \<lparr>isValid = False, error = Some ''Pattern cannot be empty''\<rparr>
      else (case RegExp_i pattern of
              Inr _ \<Rightarrow> \<lparr>isValid = True, error = None\<rparr>
            | Inl message \<Rightarrow>
                \<lparr>isValid = True,
                 error = Some (''Invalid regex, will use substring match: '' @ message)\<rparr>))"

subsection \<open>What ECMAScript prescribes for a literal between two word boundaries\<close>

text \<open>
  For a simple pattern the expression handed to the engine is \<open>\b\<close>, the pattern, \<open>\b\<close>,
  where the pattern consists of characters of \<open>[A-Za-z0-9_-]\<close> and of the white space
  that \<open>trim\<close> removed. Such an expression always compiles. It matches where the
  pattern occurs, compared character by character after canonicalization (the flag
  \<open>i\<close>), with \<open>\b\<close> holding before and behind the occurrence: exactly one of the two
  neighbouring positions holds a word character \<open>[A-Za-z0-9_]\<close>.
\<close>

definition isWordChar :: "char \<Rightarrow> bool" where
  "isWordChar c \<longleftrightarrow> isAsciiLetter c \<or> isDigit c \<or> c = CHR ''_''"

definition canonicalize :: "char \<Rightarrow> char" where
  "canonicalize c =
     (let n = (of_char c :: nat) in
      if (97 \<le> n \<and> n \<le> 122) \<or> (224 \<le> n \<and> n \<le> 254 \<and> n \<noteq> 247)
      then char_of (n - 32) else c)"

definition wordBoundaryAt :: "string \<Rightarrow> nat \<Rightarrow> bool" where
  "wordBoundaryAt s i \<longleftrightarrow>
     ((0 < i \<and> i \<le> length s \<and> isWordChar (s ! (i - 1))) \<noteq> (i < length s \<and> isWordChar (s ! i)))"

definition wordBoundedAt :: "string \<Rightarrow> string \<Rightarrow> nat \<Rightarrow> bool" where
  "wordBoundedAt body s i \<longleftrightarrow>
     i + length body \<le> length s \<and>
     wordBoundaryAt s i \<and>
     map canonicalize (take (length body) (drop i s)) = map canonicalize body \<and>
     wordBoundaryAt s (i + length body)"

definition wordBoundedTest :: "string \<Rightarrow> string \<Rightarrow> bool" where
  "wordBoundedTest body s \<longleftrightarrow> list_ex (wordBoundedAt body s) [0..<Suc (length s)]"

definition ecmaWordBoundedLiterals :: "regexpEngine \<Rightarrow> bool" where
  "ecmaWordBoundedLiterals RegExp_i \<longleftrightarrow>
     (\<forall>body. list_all (\<lambda>c. isSimpleChar c \<or> isWhiteSpace c) body \<longrightarrow>
        (\<exists>test. RegExp_i (wordBoundary @ body @ wordBoundary) = Inr test \<and>
                (\<forall>s. test s = wordBoundedTest body s)))"

text \<open>An engine that compiles the word-bounded literals as prescribed and nothing else;
  it stands for the JavaScript engine where a concrete one is needed.\<close>

definition literalEngine :: regexpEngine where
  "literalEngine source =
     (let body = take (length source - 4) (drop 2 source) in
      if 4 \<le> length source \<and> take 2 source = wordBoundary \<and>
         drop (length source - 2) source = wordBoundary \<and>
         list_all (\<lambda>c. isSimpleChar c \<or> isWhiteSpace c) body
      then Inr (wordBoundedTest body)
      else Inl ''Invalid regular expression'')"

section \<open>Hook input\<close>

text \<open>The hook input has the type \<open>unknown\<close>: any JavaScript value. The payload of a
  number plays no role in the code modelled here.\<close>

datatype jsval =
    JUndefined
  | JNull
  | JBoolean bool
  | JNumber int
  | JString string
  | JArray "jsval list"
  | JObject "(string \<times> jsval) list"

text \<open>\<open>typeof v === 'object' && v !== null\<close>\<close>

fun isNonNullObject :: "jsval \<Rightarrow> bool" where
  "isNonNullObject (JObject _) = True"
| "isNonNullObject (JArray _) = True"
| "isNonNullObject _ = False"

text \<open>Reading a property named by an identifier: \<open>undefined\<close> when the object has none.\<close>

fun getProp :: "jsval \<Rightarrow> string \<Rightarrow> jsval" where
  "getProp (JObject props) k = (case map_of props k of Some v \<Rightarrow> v | None \<Rightarrow> JUndefined)"
| "getProp _ k = JUndefined"

fun isString :: "jsval \<Rightarrow> bool" where
  "isString (JString _) = True"
| "isString _ = False"

definition isHookToolInput :: "jsval \<Rightarrow> bool" where
  "isHookToolInput input \<longleftrightarrow>
     (if \<not> isNonNullObject input then False
      else isString (getProp input ''tool_name'') \<and>
           isNonNullObject (getProp input ''tool_input''))"

definition isBashHookInput :: "jsval \<Rightarrow> bool" where
  "isBashHookInput input \<longleftrightarrow>
     (if \<not> isHookToolInput input then False
      else getProp input ''tool_name'' = JString ''Bash'')"

definition extractBashCommand :: "jsval \<Rightarrow> string" where
  "extractBashCommand input =
     (if \<not> isBashHookInput input then []
      else (case getProp (getProp input ''tool_input'') ''command'' of
              JString command \<Rightarrow> command
            | _ \<Rightarrow> []))"

definition extractToolName :: "jsval \<Rightarrow> string" where
  "extractToolName input =
     (if \<not> isHookToolInput input then []
      else (case getProp input ''tool_name'' of JString name \<Rightarrow> name | _ \<Rightarrow> []))"

definition extractToolInput :: "jsval \<Rightarrow> jsval" where
  "extractToolInput input =
     (if \<not> isHookToolInput input then JObject [] else getProp input ''tool_input'')"

section \<open>Security hooks\<close>

text \<open>\<open>{ continue: true }\<close>, or \<open>{ continue: false, ... }\<close> with the permission
  decision \<open>deny\<close> and its reason.\<close>

datatype verdict = Continue | Deny string

text \<open>
  \<open>createBlocklistHook\<close>. The pattern list is what \<open>getBashToolBlockedCommands\<close>
  returns for the context's \<open>blockedCommands\<close>; that function is declared outside the
  files verified here, so its result is a parameter.
\<close>

definition blocklistHook :: "regexpEngine \<Rightarrow> string list \<Rightarrow> bool \<Rightarrow> jsval \<Rightarrow> verdict" where
  "blocklistHook RegExp_i bashToolCommands enableBlocklist hookInput =
     (if \<not> isHookToolInput hookInput then Continue
      else
        (let command = extractBashCommand hookInput in
         if isCommandBlocked RegExp_i command bashToolCommands enableBlocklist
         then Deny (''Command blocked by blocklist: '' @ command)
         else Continue))"

text \<open>
  Modelled from the spec: the types \<open>PathAccessType\<close>, \<open>DangerousConstruct\<close> and
  \<open>PathViolation\<close> are declared in modules whose source is not part of this
  development (\<open>utils/path\<close>, \<open>security/BashPathValidator\<close>). The spec gives the
  access types vault, readwrite, context, export and outside, and a path violation with
  one of two variants and the offending path. Of a dangerous construct it says that it
  has one of five variants and that each variant carries enough data, the matched
  literal or the offending command, to render its denial reason; the hook accordingly
  reads \<open>command\<close> in the case \<open>dangerous_builtin\<close> of its switch over \<open>type\<close> and
  \<open>pattern\<close> in the four other cases. A construct is therefore a tagged value that
  carries that one text.
\<close>

datatype PathAccessType = Vault | Readwrite | Context | Export | Outside

datatype DangerousConstruct =
    CommandSubstitution string
  | BacktickSubstitution string
  | DangerousBuiltin string
  | HexEscape string
  | ProcessSubstitution string

datatype violationType = ExportPathRead | OutsideVault

record PathViolation =
  violationKind :: violationType
  violationPath :: string

text \<open>
  The functions the vault hook imports from modules whose source is not part of this
  development are parameters of the model: \<open>findDangerousConstruct\<close> and
  \<open>findBashCommandPathViolation\<close> (\<open>security/BashPathValidator\<close>), \<open>isFileTool\<close> and
  \<open>isEditTool\<close> (\<open>tools/toolNames\<close>), \<open>getPathFromToolInput\<close> (\<open>tools/toolInput\<close>).
  A result \<open>None\<close> is \<open>null\<close>.

  The two security checks and the host's classifier \<open>getPathAccessType\<close> are calls the
  hook cannot see into. Each of them takes the state of the host, of some type \<open>'s\<close>,
  and returns the state it leaves behind, so that which of them a run of the hook calls,
  and in which order, shows in the state the run ends in. A check without effects
  returns the state unchanged.
\<close>

record 's modules =
  findDangerousConstruct :: "string \<Rightarrow> 's \<Rightarrow> DangerousConstruct option \<times> 's"
  findBashCommandPathViolation ::
    "string \<Rightarrow> (string \<Rightarrow> 's \<Rightarrow> PathAccessType \<times> 's) \<Rightarrow> 's \<Rightarrow> PathViolation option \<times> 's"
  isFileTool :: "string \<Rightarrow> bool"
  isEditTool :: "string \<Rightarrow> bool"
  getPathFromToolInput :: "string \<Rightarrow> jsval \<Rightarrow> string option"

record 's VaultRestrictionContext =
  getPathAccessType :: "string \<Rightarrow> 's \<Rightarrow> PathAccessType \<times> 's"

text \<open>The constant of \<open>tools/toolNames\<close>; \<open>typeGuards.ts\<close> spells the same name out.\<close>

definition TOOL_BASH :: string where
  "TOOL_BASH = ''Bash''"

text \<open>The \<open>switch\<close> over the construct's type.\<close>

fun constructReason :: "DangerousConstruct \<Rightarrow> string" where
  "constructReason (CommandSubstitution pattern) =
     ''Access denied: Command substitution '' @ [dquote] @ pattern @ [dquote] @
     '' is not allowed as it could execute arbitrary code.''"
| "constructReason (BacktickSubstitution pattern) =
     ''Access denied: Backtick substitution '' @ [dquote] @ pattern @ [dquote] @
     '' is not allowed as it could execute arbitrary code.''"
| "constructReason (DangerousBuiltin command) =
     ''Access denied: The '' @ [dquote] @ command @ [dquote] @
     '' command is not allowed as it could execute arbitrary code.''"
| "constructReason (HexEscape pattern) =
     ''Access denied: Hex/octal escape sequences '' @ [dquote] @ pattern @ [dquote] @
     '' are not allowed as they could obfuscate malicious paths.''"
| "constructReason (ProcessSubstitution pattern) =
     ''Access denied: Process substitution '' @ [dquote] @ pattern @ [dquote] @
     '' is not allowed as it could execute arbitrary code.''"

definition commandPathReason :: "PathViolation \<Rightarrow> string" where
  "commandPathReason violation =
     (if violationKind violation = ExportPathRead
      then ''Access denied: Command path '' @ [dquote] @ violationPath violation @ [dquote] @
           '' is in an allowed export directory, but export paths are write-only.''
      else ''Access denied: Command path '' @ [dquote] @ violationPath violation @ [dquote] @
           '' is outside the vault. Agent is restricted to vault directory only.'')"

definition exportReason :: "string \<Rightarrow> string" where
  "exportReason filePath =
     ''Access denied: Path '' @ [dquote] @ filePath @ [dquote] @
     '' is in an allowed export directory, but export paths are write-only.''"

definition outsideReason :: "string \<Rightarrow> string" where
  "outsideReason filePath =
     ''Access denied: Path '' @ [dquote] @ filePath @ [dquote] @
     '' is outside the vault. Agent is restricted to vault directory only.''"

text \<open>\<open>createVaultRestrictionHook\<close>: the verdict returned and the state of the host
  after the run.\<close>

definition vaultRestrictionHook ::
  "'s modules \<Rightarrow> 's VaultRestrictionContext \<Rightarrow> jsval \<Rightarrow> 's \<Rightarrow> verdict \<times> 's" where
  "vaultRestrictionHook M context hookInput s =
     (if \<not> isHookToolInput hookInput then (Continue, s)
      else
        (let toolName = extractToolName hookInput in
         if toolName = TOOL_BASH then
           (let command = extractBashCommand hookInput in
            case findDangerousConstruct M command s of
              (Some dangerousConstruct, s1) \<Rightarrow>
                (Deny (constructReason dangerousConstruct), s1)
            | (None, s1) \<Rightarrow>
                (case findBashCommandPathViolation M command
                        (\<lambda>p. getPathAccessType context p) s1 of
                   (Some violation, s2) \<Rightarrow> (Deny (commandPathReason violation), s2)
                 | (None, s2) \<Rightarrow> (Continue, s2)))
         else if \<not> isFileTool M toolName then (Continue, s)
         else
           (let toolInput = extractToolInput hookInput;
                filePath = getPathFromToolInput M toolName toolInput
            in case filePath of
                 None \<Rightarrow> (Continue, s)
               | Some path \<Rightarrow>
                   if path = [] then (Continue, s)
                   else
                     (case getPathAccessType context path s of
                        (accessType, s1) \<Rightarrow>
                          if accessType = Vault \<or> accessType = Readwrite \<or> accessType = Context
                          then (Continue, s1)
                          else if isEditTool M toolName \<and> accessType = Export
                          then (Continue, s1)
                          else if \<not> isEditTool M toolName \<and> accessType = Export
                          then (Deny (exportReason path), s1)
                          else (Deny (outsideReason path), s1)))))"

section \<open>A concrete host\<close>

text \<open>
  A host in the sense of the end-to-end scenarios, whose state is the log of the calls
  made to it. The tools \<open>Read\<close>, \<open>Write\<close> and \<open>Edit\<close> take their path from \<open>file_path\<close>,
  \<open>Write\<close> and \<open>Edit\<close> are the edit tools. The construct detector knows \<open>$(\<close>; the path
  check asks the classifier about the last token of the command and reports it when it
  is outside; the boundary classifier marks \<open>/vault/notes.md\<close> as vault,
  \<open>/tmp/export/out.csv\<close> as export and everything else as outside. Each of the three
  appends its own call to the log.
\<close>

datatype call =
    FindDangerousConstruct string
  | FindBashCommandPathViolation string
  | GetPathAccessType string

definition exampleModules :: "call list modules" where
  "exampleModules =
     \<lparr>findDangerousConstruct =
        (\<lambda>command log.
           (if includesStr command ''$('' then Some (CommandSubstitution ''$('') else None,
            log @ [FindDangerousConstruct command])),
      findBashCommandPathViolation =
        (\<lambda>command classify log.
           case classify (last (splitWhitespace command))
                  (log @ [FindBashCommandPathViolation command]) of
             (accessType, log') \<Rightarrow>
               (if accessType = Outside
                then Some \<lparr>violationKind = OutsideVault,
                           violationPath = last (splitWhitespace command)\<rparr>
                else None,
                log')),
      isFileTool = (\<lambda>toolName. toolName \<in> set [''Read'', ''Write'', ''Edit'']),
      isEditTool = (\<lambda>toolName. toolName \<in> set [''Write'', ''Edit'']),
      getPathFromToolInput =
        (\<lambda>toolName toolInput.
           case getProp toolInput ''file_path'' of JString p \<Rightarrow> Some p | _ \<Rightarrow> None)\<rparr>"

definition exampleContext :: "call list VaultRestrictionContext" where
  "exampleContext =
     \<lparr>getPathAccessType =
        (\<lambda>p log.
           (if p = ''/vault/notes.md'' then Vault
            else if p = ''/tmp/export/out.csv'' then Export
            else Outside,
            log @ [GetPathAccessType p]))\<rparr>"

text \<open>The tool-invocation descriptor \<open>{ tool_name, tool_input }\<close>.\<close>

definition invocation :: "string \<Rightarrow> (string \<times> jsval) list \<Rightarrow> jsval" where
  "invocation toolName toolInput =
     JObject [(''tool_name'', JString toolName), (''tool_input'', JObject toolInput)]"

section \<open>Notions used in the statements\<close>

text \<open>
  A token list as \<open>split(/\s+/)\<close> produces it: not empty, no white space inside a
  token, and only the first and the last token may be empty.
\<close>

definition tokenList :: "string list \<Rightarrow> bool" where
  "tokenList ts \<longleftrightarrow>
     ts \<noteq> [] \<and> (\<forall>t\<in>set ts. \<forall>c\<in>set t. \<not> isWhiteSpace c) \<and> [] \<notin> set (butlast (tl ts))"

text \<open>The string holds two adjacent equal quote characters.\<close>

fun hasEmptyQuotePair :: "string \<Rightarrow> bool" where
  "hasEmptyQuotePair (a # b # cs) \<longleftrightarrow> (a = b \<and> isQuote a) \<or> hasEmptyQuotePair (b # cs)"
| "hasEmptyQuotePair cs \<longleftrightarrow> False"

text \<open>Every maximal run of white space replaced by one space character.\<close>

function collapseWhitespace :: "string \<Rightarrow> string" where
  "collapseWhitespace [] = []"
| "collapseWhitespace (c # cs) =
     (if isWhiteSpace c then CHR '' '' # collapseWhitespace (dropWhile isWhiteSpace cs)
      else c # collapseWhitespace cs)"
  by pat_completeness auto
termination
  by (relation "measure length") (auto simp: length_dropWhile_le less_Suc_eq_le)

text \<open>Every white-space character is a space and is not followed by white space.\<close>

fun singleSpaced :: "string \<Rightarrow> bool" where
  "singleSpaced (a # b # cs) \<longleftrightarrow>
     (isWhiteSpace a \<longrightarrow> a = CHR '' '' \<and> \<not> isWhiteSpace b) \<and> singleSpaced (b # cs)"
| "singleSpaced [a] \<longleftrightarrow> (isWhiteSpace a \<longrightarrow> a = CHR '' '')"
| "singleSpaced [] \<longleftrightarrow> True"

text \<open>
  The pattern occurs, up to case, as a whole word: the characters next to the
  occurrence, if any, are not word characters.
\<close>

definition wholeWordOccurrence :: "string \<Rightarrow> string \<Rightarrow> bool" where
  "wholeWordOccurrence pattern s \<longleftrightarrow>
     (\<exists>before m after. s = before @ m @ after \<and>
        map canonicalize m = map canonicalize pattern \<and>
        (before = [] \<or> \<not> isWordChar (last before)) \<and>
        (after = [] \<or> \<not> isWordChar (hd after)))"

section \<open>Tokens and segments\<close>

lemma splitWhitespace_not_Nil: "splitWhitespace s \<noteq> []"
  by (induction s rule: splitWhitespace.induct) (auto split: list.splits)

lemma splitWhitespace_hd:
  "s \<noteq> [] \<Longrightarrow> \<not> isWhiteSpace (hd s) \<Longrightarrow> hd (splitWhitespace s) \<noteq> []"
  by (cases s) (auto split: list.splits)

lemma splitWhitespace_tl:
  "s \<noteq> [] \<Longrightarrow> \<not> isWhiteSpace (last s) \<Longrightarrow> [] \<notin> set (tl (splitWhitespace s))"
proof (induction s rule: splitWhitespace.induct)
  case 1
  then show ?case by simp
next
  case (2 c cs)
  show ?case
  proof (cases "isWhiteSpace c")
    case True
    let ?r = "dropWhile isWhiteSpace cs"
    from True "2.prems" have cs: "cs \<noteq> []" by auto
    with "2.prems" have lastcs: "\<not> isWhiteSpace (last cs)" by simp
    have r: "?r \<noteq> []"
    proof
      assume "?r = []"
      then have "\<forall>x\<in>set cs. isWhiteSpace x" by (simp add: dropWhile_eq_Nil_conv)
      with cs lastcs show False using last_in_set by blast
    qed
    have "last ?r = last cs"
      using r by (metis append_Nil2 last_appendR takeWhile_dropWhile_id)
    with lastcs have lr: "\<not> isWhiteSpace (last ?r)" by simp
    have hr: "\<not> isWhiteSpace (hd ?r)" using r by (simp add: hd_dropWhile)
    have a: "hd (splitWhitespace ?r) \<noteq> []" using r hr by (rule splitWhitespace_hd)
    have b: "[] \<notin> set (tl (splitWhitespace ?r))" using "2.IH"(1)[OF True r lr] .
    have "[] \<notin> set (splitWhitespace ?r)"
      using a b splitWhitespace_not_Nil[of ?r] by (cases "splitWhitespace ?r") auto
    with True show ?thesis by simp
  next
    case False
    show ?thesis
    proof (cases cs)
      case Nil
      with False show ?thesis by simp
    next
      case (Cons d ds)
      with "2.prems" have "\<not> isWhiteSpace (last cs)" by simp
      with "2.IH"(2)[OF False] Cons have "[] \<notin> set (tl (splitWhitespace cs))" by simp
      with False show ?thesis by (auto split: list.splits)
    qed
  qed
qed

lemma splitWhitespace_tokens_nonempty:
  assumes "s \<noteq> []" "\<not> isWhiteSpace (hd s)" "\<not> isWhiteSpace (last s)"
  shows "[] \<notin> set (splitWhitespace s)"
  using splitWhitespace_hd[OF assms(1,2)] splitWhitespace_tl[OF assms(1,3)]
    splitWhitespace_not_Nil[of s]
  by (cases "splitWhitespace s") auto

lemma trim_hd: "trim s \<noteq> [] \<Longrightarrow> \<not> isWhiteSpace (hd (trim s))"
proof -
  assume a: "trim s \<noteq> []"
  let ?d = "dropWhile isWhiteSpace s"
  let ?e = "dropWhile isWhiteSpace (rev ?d)"
  from a have e: "?e \<noteq> []" by (simp add: trim_def)
  then have d: "?d \<noteq> []" by (cases "?d") auto
  have "hd (trim s) = last ?e" using e by (simp add: trim_def hd_rev)
  also have "\<dots> = last (rev ?d)"
    using e by (metis append_Nil2 last_appendR takeWhile_dropWhile_id)
  also have "\<dots> = hd ?d" using d by (simp add: last_rev)
  finally show ?thesis using d by (simp add: hd_dropWhile)
qed

lemma trim_last: "trim s \<noteq> [] \<Longrightarrow> \<not> isWhiteSpace (last (trim s))"
proof -
  assume a: "trim s \<noteq> []"
  let ?e = "dropWhile isWhiteSpace (rev (dropWhile isWhiteSpace s))"
  from a have e: "?e \<noteq> []" by (simp add: trim_def)
  have "last (trim s) = hd ?e" using e by (simp add: trim_def last_rev)
  then show ?thesis using e by (simp add: hd_dropWhile)
qed

lemma trim_tokens_nonempty: "trim s \<noteq> [] \<Longrightarrow> [] \<notin> set (splitWhitespace (trim s))"
  by (rule splitWhitespace_tokens_nonempty) (auto simp: trim_hd trim_last)









lemma matchSeparator_None_not_operator:
  "matchSeparator (c # cs) = None \<Longrightarrow> \<not> isOperatorChar c"
proof
  assume n: "matchSeparator (c # cs) = None" and o: "isOperatorChar c"
  from o have "\<not> isWhiteSpace c" by (auto simp: isOperatorChar_def isWhiteSpace_def)
  then have "dropWhile isWhiteSpace (c # cs) = c # cs" by simp
  moreover have "matchOperator (c # cs) \<noteq> None" using o by (cases cs) auto
  ultimately show False using n by (auto simp: matchSeparator_def split: option.splits)
qed

lemma splitSeparators_not_Nil: "splitSeparators s \<noteq> []"
  by (induction s rule: splitSeparators.induct) (auto split: option.splits list.splits)

lemma splitSeparators_no_operator:
  "seg \<in> set (splitSeparators s) \<Longrightarrow> ch \<in> set seg \<Longrightarrow> \<not> isOperatorChar ch"
proof (induction s arbitrary: seg rule: splitSeparators.induct)
  case 1
  then show ?case by simp
next
  case (2 c cs)
  show ?case
  proof (cases "matchSeparator (c # cs)")
    case (Some rest)
    with "2.prems" have "seg = [] \<or> seg \<in> set (splitSeparators rest)" by auto
    with "2.IH"(2)[OF Some] "2.prems"(2) show ?thesis by auto
  next
    case None
    then have nc: "\<not> isOperatorChar c" by (rule matchSeparator_None_not_operator)
    obtain t ts where tts: "splitSeparators cs = t # ts"
      using splitSeparators_not_Nil[of cs] by (cases "splitSeparators cs") auto
    with None "2.prems" have "seg = c # t \<or> seg \<in> set ts" by auto
    then show ?thesis
    proof
      assume "seg = c # t"
      with "2.prems"(2) have "ch = c \<or> ch \<in> set t" by auto
      then show ?thesis using nc "2.IH"(1)[OF None, of t] tts by auto
    next
      assume "seg \<in> set ts"
      then show ?thesis using "2.IH"(1)[OF None, of seg] tts "2.prems"(2) by auto
    qed
  qed
qed

lemma segmentCommandName_None_iff: "segmentCommandName seg = None \<longleftrightarrow> trim seg = []"
proof
  assume n: "segmentCommandName seg = None"
  show "trim seg = []"
  proof (rule ccontr)
    assume ne: "trim seg \<noteq> []"
    let ?ts = "splitWhitespace (trim seg)"
    have tne: "?ts \<noteq> []" by (rule splitWhitespace_not_Nil)
    have nn: "[] \<notin> set ?ts" using ne by (rule trim_tokens_nonempty)
    obtain t where t: "commandToken ?ts = Some t" "t \<in> set ?ts"
    proof (cases "dropWhile (\<lambda>t. t \<in> set wrappers) ?ts")
      case Nil
      then have "commandToken ?ts = Some (hd ?ts)" using tne
        by (cases ?ts) (simp_all only: commandToken_def list.case list.sel)
      then show ?thesis using that tne by auto
    next
      case (Cons a as)
      then have "commandToken ?ts = Some a" by (simp add: commandToken_def)
      moreover have "a \<in> set ?ts" using Cons by (metis list.set_intros(1) set_dropWhileD)
      ultimately show ?thesis using that by blast
    qed
    then have "t \<noteq> []" using nn by auto
    with t ne n show False by (simp add: segmentCommandName_def)
  qed
next
  assume "trim seg = []"
  then show "segmentCommandName seg = None" by (simp add: segmentCommandName_def)
qed

lemma segmentCommandName_basename:
  "segmentCommandName seg = Some name \<Longrightarrow>
     \<exists>token \<in> set (splitWhitespace (trim seg)). name = basename token"
proof -
  assume a: "segmentCommandName seg = Some name"
  let ?ts = "splitWhitespace (trim seg)"
  from a obtain t where t: "commandToken ?ts = Some t" "name = basename t"
    by (auto simp: segmentCommandName_def Let_def extractCommandName_def split: if_splits option.splits)
  have "t \<in> set ?ts"
  proof (cases "dropWhile (\<lambda>t. t \<in> set wrappers) ?ts")
    case Nil
    then show ?thesis using t(1) by (cases ?ts) (auto simp: commandToken_def)
  next
    case (Cons a as)
    then have "commandToken ?ts = Some a" by (simp add: commandToken_def)
    moreover have "a \<in> set ?ts" using Cons by (metis list.set_intros(1) set_dropWhileD)
    ultimately show ?thesis using t(1) by simp
  qed
  with t(2) show ?thesis by blast
qed

text \<open>
  Claim C4. \<open>sudo rm -rf / && ls\<close> yields exactly \<open>rm\<close> and \<open>ls\<close>. Where \<open>||\<close> or
  \<open>&&\<close> stands, the separator consumes both characters (and the white space behind);
  no segment holds one of the characters \<open>|\<close>, \<open>;\<close>, \<open>&\<close>; exactly the blank segments
  contribute no name; and every name is the basename of a token of one of the segments.
\<close>

theorem segmentation_and_command_names:
  "extractAllCommandNames ''sudo rm -rf / && ls'' = [''rm'', ''ls''] \<and>
   matchSeparator (''||'' @ r) = Some (dropWhile isWhiteSpace r) \<and>
   matchSeparator (''&&'' @ r) = Some (dropWhile isWhiteSpace r) \<and>
   (\<forall>seg \<in> set (splitSeparators command). \<forall>ch \<in> set seg. \<not> isOperatorChar ch) \<and>
   (\<forall>seg. segmentCommandName seg = None \<longleftrightarrow> trim seg = []) \<and>
   (\<forall>name \<in> set (extractAllCommandNames command).
      \<exists>seg \<in> set (splitSeparators command). \<exists>token \<in> set (splitWhitespace (trim seg)).
        name = extractCommandName token)"
proof (intro conjI)
  show "extractAllCommandNames ''sudo rm -rf / && ls'' = [''rm'', ''ls'']"
    by (simp add: extractAllCommandNames_def segmentCommandName_def matchSeparator_def
        isWhiteSpace_def isOperatorChar_def List.map_filter_def trim_def commandToken_def
        wrappers_def extractCommandName_def basename_def)
  show "matchSeparator (''||'' @ r) = Some (dropWhile isWhiteSpace r)"
    by (simp add: matchSeparator_def isWhiteSpace_def)
  show "matchSeparator (''&&'' @ r) = Some (dropWhile isWhiteSpace r)"
    by (simp add: matchSeparator_def isWhiteSpace_def)
  show "\<forall>seg \<in> set (splitSeparators command). \<forall>ch \<in> set seg. \<not> isOperatorChar ch"
    using splitSeparators_no_operator by blast
  show "\<forall>seg. segmentCommandName seg = None \<longleftrightarrow> trim seg = []"
    using segmentCommandName_None_iff by blast
  show "\<forall>name \<in> set (extractAllCommandNames command).
      \<exists>seg \<in> set (splitSeparators command). \<exists>token \<in> set (splitWhitespace (trim seg)).
        name = extractCommandName token"
  proof
    fix name assume "name \<in> set (extractAllCommandNames command)"
    then obtain seg where seg: "seg \<in> set (splitSeparators command)"
      "segmentCommandName seg = Some name"
      by (auto simp: extractAllCommandNames_def List.map_filter_def)
    from segmentCommandName_basename[OF seg(2)] seg(1)
    show "\<exists>seg \<in> set (splitSeparators command). \<exists>token \<in> set (splitWhitespace (trim seg)).
        name = extractCommandName token"
      by (auto simp: extractCommandName_def)
  qed
qed

text \<open>
  Witness for C4: \<open>a || /bin/b;;c\<close> splits into four segments, one of them empty, and
  yields three names.
\<close>

theorem segmentation_and_command_names_witness:
  "splitSeparators ''a || /bin/b;;c'' = [''a'', ''/bin/b'', [], ''c''] \<and>
   extractAllCommandNames ''a || /bin/b;;c'' = [''a'', ''b'', ''c'']"
proof -
  have s: "splitSeparators ''a || /bin/b;;c'' = [''a'', ''/bin/b'', [], ''c'']"
    by (simp add: matchSeparator_def isWhiteSpace_def isOperatorChar_def)
  have n: "extractAllCommandNames ''a || /bin/b;;c'' = [''a'', ''b'', ''c'']"
    by (simp add: extractAllCommandNames_def segmentCommandName_def matchSeparator_def
        isWhiteSpace_def isOperatorChar_def List.map_filter_def trim_def commandToken_def
        wrappers_def extractCommandName_def basename_def)
  note t = segmentation_and_command_names[of "''b''" "''a || /bin/b;;c''"]
  from t have "\<forall>seg \<in> set (splitSeparators ''a || /bin/b;;c''). \<forall>ch \<in> set seg. \<not> isOperatorChar ch"
    by blast
  with s n show ?thesis by simp
qed

section \<open>Properties of the normalizer\<close>

text \<open>
  Claim C1 at a command that starts with white space: the first element of the split
  is then the empty string, and the backslash in the command name stays. Without the
  leading space the same command loses it.
\<close>

theorem leading_whitespace_keeps_backslash:
  "normalizeCommand ('' r'' @ [backslash] @ ''m -rf /'') = '' r'' @ [backslash] @ ''m -rf /'' \<and>
   normalizeCommand (''r'' @ [backslash] @ ''m -rf /'') = ''rm -rf /''"
  by code_simp

lemma join_head_char: "join sep ((c # t) # ts) = c # join sep (t # ts)"
  by (cases ts) auto

lemma join_Nil_head: "ts \<noteq> [] \<Longrightarrow> join sep ([] # ts) = sep @ join sep ts"
  by (cases ts) auto

lemma splitWhitespace_wsfree:
  "t \<in> set (splitWhitespace s) \<Longrightarrow> c \<in> set t \<Longrightarrow> \<not> isWhiteSpace c"
proof (induction s arbitrary: t rule: splitWhitespace.induct)
  case 1
  then show ?case by simp
next
  case (2 a as)
  show ?case
  proof (cases "isWhiteSpace a")
    case True
    with "2.prems" have "t \<in> set (splitWhitespace (dropWhile isWhiteSpace as))" by auto
    then show ?thesis using "2.IH"(1)[OF True] "2.prems"(2) by blast
  next
    case False
    obtain u us where u: "splitWhitespace as = u # us"
      using splitWhitespace_not_Nil[of as] by (cases "splitWhitespace as") auto
    with False "2.prems" have "t = a # u \<or> t \<in> set us" by auto
    then show ?thesis
    proof
      assume "t = a # u"
      with "2.prems"(2) have "c = a \<or> c \<in> set u" by auto
      then show ?thesis using False "2.IH"(2)[OF False, of u] u by auto
    next
      assume "t \<in> set us"
      then show ?thesis using "2.IH"(2)[OF False, of t] u "2.prems"(2) by auto
    qed
  qed
qed

lemma splitWhitespace_hd_nonempty:
  "s \<noteq> [] \<Longrightarrow> \<not> isWhiteSpace (hd s) \<Longrightarrow> hd (splitWhitespace s) \<noteq> []"
  by (cases s) (auto split: list.splits)

lemma splitWhitespace_interior:
  "[] \<notin> set (butlast (tl (splitWhitespace s)))"
proof (induction s rule: splitWhitespace.induct)
  case 1
  then show ?case by simp
next
  case (2 c cs)
  show ?case
  proof (cases "isWhiteSpace c")
    case True
    let ?r = "dropWhile isWhiteSpace cs"
    let ?R = "splitWhitespace ?r"
    have ih: "[] \<notin> set (butlast (tl ?R))" using "2.IH"(1)[OF True] .
    have "[] \<notin> set (butlast ?R)"
    proof (cases "?r = []")
      case True
      then have "?R = [[]]" by (simp only: splitWhitespace.simps)
      then show ?thesis by simp
    next
      case False
      then have "\<not> isWhiteSpace (hd ?r)" by (simp add: hd_dropWhile)
      with False have h: "hd ?R \<noteq> []" by (rule splitWhitespace_hd_nonempty)
      obtain u us where u: "?R = u # us"
        using splitWhitespace_not_Nil[of ?r] by (cases ?R) auto
      with h ih show ?thesis by (cases us) auto
    qed
    with True show ?thesis by simp
  next
    case False
    obtain u us where u: "splitWhitespace cs = u # us"
      using splitWhitespace_not_Nil[of cs] by (cases "splitWhitespace cs") auto
    with False "2.IH"(2)[OF False] show ?thesis by simp
  qed
qed

lemma tokenList_splitWhitespace: "tokenList (splitWhitespace s)"
  unfolding tokenList_def
  using splitWhitespace_not_Nil splitWhitespace_wsfree splitWhitespace_interior by blast

lemma splitWhitespace_token:
  "\<forall>c\<in>set x. \<not> isWhiteSpace c \<Longrightarrow> splitWhitespace x = [x]"
  by (induction x) auto

lemma splitWhitespace_token_then_space:
  "\<forall>c\<in>set x. \<not> isWhiteSpace c \<Longrightarrow> isWhiteSpace w \<Longrightarrow>
   splitWhitespace (x @ w # r) = x # splitWhitespace (dropWhile isWhiteSpace r)"
  by (induction x) auto

lemma splitWhitespace_join_aux:
  "ys \<noteq> [] \<Longrightarrow> \<forall>t\<in>set ys. \<forall>c\<in>set t. \<not> isWhiteSpace c \<Longrightarrow> [] \<notin> set (butlast ys) \<Longrightarrow>
   splitWhitespace (dropWhile isWhiteSpace (join '' '' ys)) = ys"
proof (induction ys)
  case Nil
  then show ?case by simp
next
  case (Cons x ys)
  have x: "\<forall>c\<in>set x. \<not> isWhiteSpace c" using Cons.prems(2) by simp
  show ?case
  proof (cases ys)
    case Nil
    have "dropWhile isWhiteSpace x = x" using x by (cases x) auto
    with x Nil show ?thesis by (simp add: splitWhitespace_token)
  next
    case (Cons y zs)
    with Cons.prems(3) have xne: "x \<noteq> []" by auto
    have j: "join '' '' (x # ys) = x @ CHR '' '' # join '' '' ys" using Cons by simp
    have d: "dropWhile isWhiteSpace (x @ CHR '' '' # join '' '' ys) = x @ CHR '' '' # join '' '' ys"
      using x xne by (cases x) auto
    have w: "isWhiteSpace (CHR '' '')" by (simp add: isWhiteSpace_def)
    have "[] \<notin> set (butlast ys)" using Cons.prems(3) Cons by simp
    with Cons.IH Cons.prems(2) Cons
    have ih: "splitWhitespace (dropWhile isWhiteSpace (join '' '' ys)) = ys" by simp
    show ?thesis
      unfolding j d using ih splitWhitespace_token_then_space[OF x w, of "join '' '' ys"] by simp
  qed
qed

lemma splitWhitespace_join:
  assumes "tokenList ts"
  shows "splitWhitespace (join '' '' ts) = ts"
proof -
  from assms obtain x ys where ts: "ts = x # ys" by (cases ts) (auto simp: tokenList_def)
  have x: "\<forall>c\<in>set x. \<not> isWhiteSpace c" using assms ts by (simp add: tokenList_def)
  show ?thesis
  proof (cases ys)
    case Nil
    with ts x show ?thesis by (simp add: splitWhitespace_token)
  next
    case (Cons y zs)
    have w: "isWhiteSpace (CHR '' '')" by (simp add: isWhiteSpace_def)
    have "splitWhitespace (dropWhile isWhiteSpace (join '' '' ys)) = ys"
      using assms ts Cons by (intro splitWhitespace_join_aux) (auto simp: tokenList_def)
    then show ?thesis
      using ts Cons splitWhitespace_token_then_space[OF x w, of "join '' '' ys"] by simp
  qed
qed

lemma tokenList_removeBackslashes:
  "tokenList (p # ps) \<Longrightarrow> tokenList (removeBackslashes p # ps)"
  by (auto simp: tokenList_def removeBackslashes_def)

lemma normalizeCommand_tokens:
  "\<exists>p ps. splitWhitespace (removeEmptyQuotes c) = p # ps \<and>
          normalizeCommand c = join '' '' (removeBackslashes p # ps) \<and>
          splitWhitespace (normalizeCommand c) = removeBackslashes p # ps"
proof -
  obtain p ps where s: "splitWhitespace (removeEmptyQuotes c) = p # ps"
    using splitWhitespace_not_Nil[of "removeEmptyQuotes c"]
    by (cases "splitWhitespace (removeEmptyQuotes c)") auto
  then have n: "normalizeCommand c = join '' '' (removeBackslashes p # ps)"
    by (simp add: normalizeCommand_def)
  have "tokenList (p # ps)" using tokenList_splitWhitespace[of "removeEmptyQuotes c"] s by simp
  then have "tokenList (removeBackslashes p # ps)" by (rule tokenList_removeBackslashes)
  then have "splitWhitespace (join '' '' (removeBackslashes p # ps)) = removeBackslashes p # ps"
    by (rule splitWhitespace_join)
  with s n show ?thesis by simp
qed

lemma normalizeCommand_unfold:
  "splitWhitespace (removeEmptyQuotes d) = q # qs \<Longrightarrow>
   normalizeCommand d = join '' '' (removeBackslashes q # qs)"
  by (simp add: normalizeCommand_def)

lemma removeEmptyQuotes_id: "\<not> hasEmptyQuotePair s \<Longrightarrow> removeEmptyQuotes s = s"
  by (induction s rule: removeEmptyQuotes.induct) auto

lemma removeEmptyQuotes_length_le: "length (removeEmptyQuotes s) \<le> length s"
  by (induction s rule: removeEmptyQuotes.induct) auto

lemma removeEmptyQuotes_length_less:
  "hasEmptyQuotePair s \<Longrightarrow> length (removeEmptyQuotes s) < length s"
proof (induction s rule: removeEmptyQuotes.induct)
  case (1 a b cs)
  show ?case
  proof (cases "a = b \<and> isQuote a")
    case True
    have "length (removeEmptyQuotes cs) \<le> length cs" by (rule removeEmptyQuotes_length_le)
    moreover have "removeEmptyQuotes (a # b # cs) = removeEmptyQuotes cs"
      using True by auto
    ultimately show ?thesis by simp
  next
    case False
    with 1 show ?thesis by auto
  qed
qed simp_all

lemma join_splitWhitespace_length: "length (join '' '' (splitWhitespace s)) \<le> length s"
proof (induction s rule: splitWhitespace.induct)
  case 1
  then show ?case by simp
next
  case (2 c cs)
  show ?case
  proof (cases "isWhiteSpace c")
    case True
    let ?r = "dropWhile isWhiteSpace cs"
    have "length (join '' '' (splitWhitespace ?r)) \<le> length ?r" using "2.IH"(1)[OF True] .
    also have "\<dots> \<le> length cs" by (rule length_dropWhile_le)
    finally show ?thesis using True splitWhitespace_not_Nil[of ?r] by (simp add: join_Nil_head)
  next
    case False
    obtain u us where u: "splitWhitespace cs = u # us"
      using splitWhitespace_not_Nil[of cs] by (cases "splitWhitespace cs") auto
    with False "2.IH"(2)[OF False] show ?thesis by (simp add: join_head_char)
  qed
qed

lemma join_head_length:
  "length p' \<le> length p \<Longrightarrow> length (join sep (p' # ps)) \<le> length (join sep (p # ps))"
  by (cases ps) auto

lemma normalizeCommand_length_le: "length (normalizeCommand c) \<le> length c"
proof -
  obtain p ps where s: "splitWhitespace (removeEmptyQuotes c) = p # ps"
    using splitWhitespace_not_Nil[of "removeEmptyQuotes c"]
    by (cases "splitWhitespace (removeEmptyQuotes c)") auto
  have "length (removeBackslashes p) \<le> length p" by (simp add: removeBackslashes_def)
  then have "length (join '' '' (removeBackslashes p # ps)) \<le> length (join '' '' (p # ps))"
    by (rule join_head_length)
  also have "\<dots> \<le> length (removeEmptyQuotes c)"
    using join_splitWhitespace_length[of "removeEmptyQuotes c"] s by simp
  finally have "length (normalizeCommand c) \<le> length (removeEmptyQuotes c)"
    using s by (simp add: normalizeCommand_def)
  then show ?thesis using removeEmptyQuotes_length_le[of c] by simp
qed

lemma normalizeCommand_length_less:
  assumes "hasEmptyQuotePair c"
  shows "length (normalizeCommand c) < length c"
proof -
  obtain p ps where s: "splitWhitespace (removeEmptyQuotes c) = p # ps"
    using splitWhitespace_not_Nil[of "removeEmptyQuotes c"]
    by (cases "splitWhitespace (removeEmptyQuotes c)") auto
  have "length (removeBackslashes p) \<le> length p" by (simp add: removeBackslashes_def)
  then have "length (join '' '' (removeBackslashes p # ps)) \<le> length (join '' '' (p # ps))"
    by (rule join_head_length)
  also have "\<dots> \<le> length (removeEmptyQuotes c)"
    using join_splitWhitespace_length[of "removeEmptyQuotes c"] s by simp
  finally have "length (normalizeCommand c) \<le> length (removeEmptyQuotes c)"
    using s by (simp add: normalizeCommand_def)
  then show ?thesis using removeEmptyQuotes_length_less[OF assms] by simp
qed

text \<open>
  Claim C2 as stated fails: removing the inner pair of the four quote characters
  \<open>' " " '\<close> leaves a new pair, which only a second normalization removes.
\<close>

theorem nested_empty_quotes_counterexample:
  "normalizeCommand (normalizeCommand [squote, dquote, dquote, squote]) \<noteq>
   normalizeCommand [squote, dquote, dquote, squote]"
  by code_simp

text \<open>
  Claim C2, amended. Normalizing a second time changes nothing exactly when the
  normalized command holds no adjacent empty-quote pair.
\<close>

theorem normalize_idempotent_iff:
  "normalizeCommand (normalizeCommand c) = normalizeCommand c \<longleftrightarrow>
   \<not> hasEmptyQuotePair (normalizeCommand c)"
proof
  assume eq: "normalizeCommand (normalizeCommand c) = normalizeCommand c"
  show "\<not> hasEmptyQuotePair (normalizeCommand c)"
  proof
    assume "hasEmptyQuotePair (normalizeCommand c)"
    then have "length (normalizeCommand (normalizeCommand c)) < length (normalizeCommand c)"
      by (rule normalizeCommand_length_less)
    with eq show False by simp
  qed
next
  assume "\<not> hasEmptyQuotePair (normalizeCommand c)"
  then have r: "removeEmptyQuotes (normalizeCommand c) = normalizeCommand c"
    by (rule removeEmptyQuotes_id)
  obtain p ps where t: "normalizeCommand c = join '' '' (removeBackslashes p # ps)"
    "splitWhitespace (normalizeCommand c) = removeBackslashes p # ps"
    using normalizeCommand_tokens[of c] by blast
  have "removeBackslashes (removeBackslashes p) = removeBackslashes p"
    by (simp add: removeBackslashes_def)
  moreover have "splitWhitespace (removeEmptyQuotes (normalizeCommand c)) = removeBackslashes p # ps"
    using r t(2) by simp
  ultimately show "normalizeCommand (normalizeCommand c) = normalizeCommand c"
    using normalizeCommand_unfold[of "normalizeCommand c" "removeBackslashes p" ps] t(1) by simp
qed

text \<open>
  Witness for C2: \<open>r''m   -rf /\<close> normalizes to a command without a pair.
\<close>

theorem normalize_idempotent_iff_witness:
  "\<not> hasEmptyQuotePair (normalizeCommand (''r'' @ [squote, squote] @ ''m   -rf /'')) \<and>
   normalizeCommand (normalizeCommand (''r'' @ [squote, squote] @ ''m   -rf /'')) =
   normalizeCommand (''r'' @ [squote, squote] @ ''m   -rf /'')"
proof -
  have "\<not> hasEmptyQuotePair (normalizeCommand (''r'' @ [squote, squote] @ ''m   -rf /''))"
    by code_simp
  then show ?thesis using normalize_idempotent_iff[of "''r'' @ [squote, squote] @ ''m   -rf /''"] by blast
qed

lemma join_splitWhitespace: "join '' '' (splitWhitespace s) = collapseWhitespace s"
proof (induction s rule: splitWhitespace.induct)
  case 1
  then show ?case by simp
next
  case (2 c cs)
  show ?case
  proof (cases "isWhiteSpace c")
    case True
    then show ?thesis
      using "2.IH"(1)[OF True] splitWhitespace_not_Nil[of "dropWhile isWhiteSpace cs"]
      by (simp add: join_Nil_head)
  next
    case False
    obtain u us where u: "splitWhitespace cs = u # us"
      using splitWhitespace_not_Nil[of cs] by (cases "splitWhitespace cs") auto
    with False "2.IH"(2)[OF False] show ?thesis by (simp add: join_head_char)
  qed
qed

lemma singleSpaced_Cons: "\<not> isWhiteSpace c \<Longrightarrow> singleSpaced (c # s) = singleSpaced s"
  by (cases s) auto

lemma singleSpaced_collapseWhitespace: "singleSpaced (collapseWhitespace s)"
proof (induction s rule: collapseWhitespace.induct)
  case 1
  then show ?case by simp
next
  case (2 c cs)
  show ?case
  proof (cases "isWhiteSpace c")
    case True
    let ?r = "dropWhile isWhiteSpace cs"
    have e: "collapseWhitespace (c # cs) = CHR '' '' # collapseWhitespace ?r"
      using True by simp
    show ?thesis
    proof (cases ?r)
      case Nil
      have "collapseWhitespace (c # cs) = [CHR '' '']" unfolding e Nil by simp
      then show ?thesis by simp
    next
      case (Cons d ds)
      then have d: "\<not> isWhiteSpace d" by (metis hd_dropWhile list.sel(1) list.distinct(1))
      have "singleSpaced (collapseWhitespace (d # ds))" using "2.IH"(1)[OF True] Cons by simp
      moreover have "collapseWhitespace (c # cs) = CHR '' '' # d # collapseWhitespace ds"
        unfolding e Cons using d by simp
      ultimately show ?thesis using d by simp
    qed
  next
    case False
    with "2.IH"(2)[OF False] show ?thesis by (simp add: singleSpaced_Cons)
  qed
qed

lemma not_quote_whitespace: "isWhiteSpace w \<Longrightarrow> \<not> isQuote w"
  by (auto simp: isWhiteSpace_def isQuote_def squote_def dquote_def backtick_def)

lemma removeEmptyQuotes_Cons_nonquote:
  "\<not> isQuote w \<Longrightarrow> removeEmptyQuotes (w # r) = w # removeEmptyQuotes r"
  by (cases r) auto

lemma removeEmptyQuotes_append_nonquote:
  "\<not> isQuote w \<Longrightarrow>
   removeEmptyQuotes (p @ w # r) = removeEmptyQuotes p @ w # removeEmptyQuotes r"
proof (induction p rule: removeEmptyQuotes.induct)
  case (1 a b cs)
  show ?case
  proof (cases "a = b \<and> isQuote a")
    case True
    then have "removeEmptyQuotes ((a # b # cs) @ w # r) = removeEmptyQuotes (cs @ w # r)"
      by auto
    moreover have "removeEmptyQuotes (a # b # cs) = removeEmptyQuotes cs" using True by auto
    ultimately show ?thesis using "1.IH"(1)[OF True "1.prems"] by simp
  next
    case False
    then have "removeEmptyQuotes ((a # b # cs) @ w # r) = a # removeEmptyQuotes ((b # cs) @ w # r)"
      by auto
    moreover have "removeEmptyQuotes (a # b # cs) = a # removeEmptyQuotes (b # cs)"
      using False by auto
    ultimately show ?thesis using "1.IH"(2)[OF False "1.prems"] by simp
  qed
qed (auto simp: removeEmptyQuotes_Cons_nonquote)

lemma removeEmptyQuotes_whitespace_prefix:
  "\<forall>w\<in>set W. isWhiteSpace w \<Longrightarrow> removeEmptyQuotes (W @ r) = W @ removeEmptyQuotes r"
  by (induction W) (simp_all add: removeEmptyQuotes_Cons_nonquote not_quote_whitespace)

lemma removeEmptyQuotes_whitespace_run:
  assumes "W \<noteq> []" "\<forall>w\<in>set W. isWhiteSpace w"
  shows "removeEmptyQuotes (p @ W @ r) = removeEmptyQuotes p @ W @ removeEmptyQuotes r"
proof -
  from assms obtain w W' where W: "W = w # W'" by (cases W) auto
  with assms(2) have w: "\<not> isQuote w" and W': "\<forall>w\<in>set W'. isWhiteSpace w"
    by (simp_all add: not_quote_whitespace)
  have "removeEmptyQuotes (p @ w # (W' @ r)) = removeEmptyQuotes p @ w # removeEmptyQuotes (W' @ r)"
    using w by (rule removeEmptyQuotes_append_nonquote)
  then show ?thesis using W removeEmptyQuotes_whitespace_prefix[OF W'] by simp
qed

lemma splitWhitespace_run:
  "W \<noteq> [] \<Longrightarrow> \<forall>w\<in>set W. isWhiteSpace w \<Longrightarrow>
   splitWhitespace (x @ W @ y) = splitWhitespace (x @ CHR '' '' # y)"
proof (induction x rule: splitWhitespace.induct)
  case 1
  then obtain w W' where W: "W = w # W'" by (cases W) auto
  with 1 have "isWhiteSpace w" "\<And>x. x \<in> set W' \<Longrightarrow> isWhiteSpace x" by auto
  then show ?case using W by (simp add: dropWhile_append2 isWhiteSpace_def[of "CHR '' ''"])
next
  case (2 c cs)
  have sp: "isWhiteSpace (CHR '' '')" by (simp add: isWhiteSpace_def)
  show ?case
  proof (cases "isWhiteSpace c")
    case True
    show ?thesis
    proof (cases "dropWhile isWhiteSpace cs = []")
      case allws: True
      then have a: "\<And>x. x \<in> set cs \<Longrightarrow> isWhiteSpace x" by (simp add: dropWhile_eq_Nil_conv)
      have b: "\<And>x. x \<in> set W \<Longrightarrow> isWhiteSpace x" using "2.prems"(2) by simp
      have "dropWhile isWhiteSpace (cs @ W @ y) = dropWhile isWhiteSpace y"
        using a b by (simp add: dropWhile_append2)
      moreover have "dropWhile isWhiteSpace (cs @ CHR '' '' # y) = dropWhile isWhiteSpace y"
        using a sp by (simp add: dropWhile_append2)
      ultimately show ?thesis using True by simp
    next
      case False
      then obtain z where z: "z \<in> set cs" "\<not> isWhiteSpace z"
        by (auto simp: dropWhile_eq_Nil_conv)
      have d: "dropWhile isWhiteSpace (cs @ Z) = dropWhile isWhiteSpace cs @ Z" for Z
        using z by (rule dropWhile_append1)
      show ?thesis
        using True "2.IH"(1)[OF True "2.prems"] d[of "W @ y"] d[of "CHR '' '' # y"] by simp
    qed
  next
    case False
    then show ?thesis using "2.IH"(2)[OF False "2.prems"] by simp
  qed
qed

lemma tokens_collapse_invariant:
  "splitWhitespace (removeEmptyQuotes (p @ collapseWhitespace c)) =
   splitWhitespace (removeEmptyQuotes (p @ c))"
proof (induction c arbitrary: p rule: collapseWhitespace.induct)
  case 1
  then show ?case by simp
next
  case (2 c cs)
  show ?case
  proof (cases "isWhiteSpace c")
    case True
    let ?W = "c # takeWhile isWhiteSpace cs"
    let ?r = "dropWhile isWhiteSpace cs"
    have W: "?W \<noteq> []" "\<forall>w\<in>set ?W. isWhiteSpace w"
      using True by (auto dest: set_takeWhileD)
    have sp: "\<not> isQuote (CHR '' '')"
      by (simp add: isQuote_def squote_def dquote_def backtick_def)
    have "splitWhitespace (removeEmptyQuotes (p @ c # cs)) =
          splitWhitespace (removeEmptyQuotes (p @ ?W @ ?r))" by simp
    also have "\<dots> = splitWhitespace (removeEmptyQuotes p @ ?W @ removeEmptyQuotes ?r)"
      by (simp only: removeEmptyQuotes_whitespace_run[OF W])
    also have "\<dots> = splitWhitespace (removeEmptyQuotes p @ CHR '' '' # removeEmptyQuotes ?r)"
      using W by (rule splitWhitespace_run)
    also have "\<dots> = splitWhitespace (removeEmptyQuotes ((p @ '' '') @ ?r))"
      using removeEmptyQuotes_append_nonquote[OF sp, of p ?r] by simp
    also have "\<dots> = splitWhitespace (removeEmptyQuotes ((p @ '' '') @ collapseWhitespace ?r))"
      using "2.IH"(1)[OF True, of "p @ '' ''"] by simp
    finally show ?thesis using True by simp
  next
    case False
    then show ?thesis using "2.IH"(2)[OF False, of "p @ [c]"] by simp
  qed
qed

lemma normalizeCommand_collapse: "normalizeCommand (collapseWhitespace c) = normalizeCommand c"
proof -
  obtain p ps where s: "splitWhitespace (removeEmptyQuotes c) = p # ps"
    using splitWhitespace_not_Nil[of "removeEmptyQuotes c"]
    by (cases "splitWhitespace (removeEmptyQuotes c)") auto
  then have "splitWhitespace (removeEmptyQuotes (collapseWhitespace c)) = p # ps"
    using tokens_collapse_invariant[of "[]" c] by simp
  with s show ?thesis by (simp add: normalizeCommand_unfold)
qed

lemma normalizeCommand_collapsed: "collapseWhitespace (normalizeCommand c) = normalizeCommand c"
proof -
  obtain p ps where t: "normalizeCommand c = join '' '' (removeBackslashes p # ps)"
    "splitWhitespace (normalizeCommand c) = removeBackslashes p # ps"
    using normalizeCommand_tokens[of c] by blast
  have "collapseWhitespace (normalizeCommand c) = join '' '' (splitWhitespace (normalizeCommand c))"
    by (simp add: join_splitWhitespace)
  with t show ?thesis by simp
qed

text \<open>
  Claim C10. In the normalized command every white-space character is a single space
  that no white space follows; where the first token holds no backslash the result is
  the command without its empty-quote pairs and with every run of white space
  collapsed into one space; collapsing the runs beforehand does not change the result;
  so two commands that agree once their runs are collapsed normalize to the same
  string.
\<close>

theorem whitespace_runs_collapse:
  "singleSpaced (normalizeCommand c) \<and>
   (backslash \<notin> set (hd (splitWhitespace (removeEmptyQuotes c))) \<longrightarrow>
      normalizeCommand c = collapseWhitespace (removeEmptyQuotes c)) \<and>
   normalizeCommand (collapseWhitespace c) = normalizeCommand c \<and>
   (collapseWhitespace c = collapseWhitespace c' \<longrightarrow> normalizeCommand c = normalizeCommand c')"
proof (intro conjI impI)
  show "singleSpaced (normalizeCommand c)"
    using singleSpaced_collapseWhitespace[of "normalizeCommand c"]
    by (simp add: normalizeCommand_collapsed)
  show "normalizeCommand (collapseWhitespace c) = normalizeCommand c"
    by (rule normalizeCommand_collapse)
next
  assume b: "backslash \<notin> set (hd (splitWhitespace (removeEmptyQuotes c)))"
  obtain p ps where s: "splitWhitespace (removeEmptyQuotes c) = p # ps"
    using splitWhitespace_not_Nil[of "removeEmptyQuotes c"]
    by (cases "splitWhitespace (removeEmptyQuotes c)") auto
  with b have "removeBackslashes p = p" by (auto simp: removeBackslashes_def filter_id_conv)
  with s have "normalizeCommand c = join '' '' (splitWhitespace (removeEmptyQuotes c))"
    by (simp add: normalizeCommand_def)
  then show "normalizeCommand c = collapseWhitespace (removeEmptyQuotes c)"
    by (simp add: join_splitWhitespace)
next
  assume "collapseWhitespace c = collapseWhitespace c'"
  then have "normalizeCommand (collapseWhitespace c) = normalizeCommand (collapseWhitespace c')"
    by simp
  then show "normalizeCommand c = normalizeCommand c'" by (simp add: normalizeCommand_collapse)
qed

text \<open>
  Witness for C10: a tab and a space, and two spaces, against three spaces and one.
\<close>

theorem whitespace_runs_collapse_witness:
  "normalizeCommand (''ls'' @ [CHR 0x09, CHR 0x20] @ ''-la  /tmp'') = ''ls -la /tmp'' \<and>
   normalizeCommand (''ls'' @ [CHR 0x09, CHR 0x20] @ ''-la  /tmp'') =
   normalizeCommand ''ls   -la /tmp''"
proof -
  let ?c = "''ls'' @ [CHR 0x09, CHR 0x20] @ ''-la  /tmp''"
  have b: "backslash \<notin> set (hd (splitWhitespace (removeEmptyQuotes ?c)))" by code_simp
  have k: "collapseWhitespace (removeEmptyQuotes ?c) = ''ls -la /tmp''" by code_simp
  have e: "collapseWhitespace ?c = collapseWhitespace ''ls   -la /tmp''" by code_simp
  note t = whitespace_runs_collapse[of ?c "''ls   -la /tmp''"]
  from t have "backslash \<notin> set (hd (splitWhitespace (removeEmptyQuotes ?c))) \<longrightarrow>
      normalizeCommand ?c = collapseWhitespace (removeEmptyQuotes ?c)" by (rule conjunct1[OF conjunct2])
  then have "normalizeCommand ?c = collapseWhitespace (removeEmptyQuotes ?c)" using b by (rule mp)
  then have x: "normalizeCommand ?c = ''ls -la /tmp''" by (simp only: k)
  from t have "collapseWhitespace ?c = collapseWhitespace ''ls   -la /tmp'' \<longrightarrow>
      normalizeCommand ?c = normalizeCommand ''ls   -la /tmp''"
    by (rule conjunct2[OF conjunct2[OF conjunct2]])
  then have y: "normalizeCommand ?c = normalizeCommand ''ls   -la /tmp''" using e by (rule mp)
  from x y show ?thesis by (rule conjI)
qed

section \<open>Properties of the blocklist matcher\<close>

text \<open>
  Claim C6. \<open>isCommandBlocked\<close> is false when the blocklist is disabled and when the
  command is empty, whatever the patterns; and the blocklist hook returns
  \<open>continue: true\<close> for a hook input whose command is missing or is not a string.
\<close>

theorem blocklist_disabled_or_no_command:
  "isCommandBlocked RegExp_i command patterns False = False \<and>
   isCommandBlocked RegExp_i [] patterns enableBlocklist = False \<and>
   (\<not> isString (getProp (getProp hookInput ''tool_input'') ''command'') \<longrightarrow>
      blocklistHook RegExp_i patterns enableBlocklist hookInput = Continue)"
proof (intro conjI impI)
  show "isCommandBlocked RegExp_i command patterns False = False"
    by (simp add: isCommandBlocked_def)
  show e: "isCommandBlocked RegExp_i [] patterns enableBlocklist = False"
    by (simp add: isCommandBlocked_def)
  assume "\<not> isString (getProp (getProp hookInput ''tool_input'') ''command'')"
  then have "extractBashCommand hookInput = []"
    by (cases "getProp (getProp hookInput ''tool_input'') ''command''")
       (simp_all add: extractBashCommand_def)
  then show "blocklistHook RegExp_i patterns enableBlocklist hookInput = Continue"
    using e by (simp add: blocklistHook_def)
qed

text \<open>
  Witness for C6: a Bash invocation whose command is a number, and one without a
  command.
\<close>

theorem blocklist_disabled_or_no_command_witness:
  "blocklistHook literalEngine [''rm''] True (invocation ''Bash'' [(''command'', JNumber 7)]) = Continue \<and>
   blocklistHook literalEngine [''rm''] True (invocation ''Bash'' []) = Continue"
proof -
  have a: "\<not> isString (getProp (getProp (invocation ''Bash'' [(''command'', JNumber 7)]) ''tool_input'') ''command'')"
    by (simp add: invocation_def)
  have b: "\<not> isString (getProp (getProp (invocation ''Bash'' []) ''tool_input'') ''command'')"
    by (simp add: invocation_def)
  from blocklist_disabled_or_no_command[of literalEngine "[]" "[''rm'']" True "invocation ''Bash'' [(''command'', JNumber 7)]"] a
       blocklist_disabled_or_no_command[of literalEngine "[]" "[''rm'']" True "invocation ''Bash'' []"] b
  show ?thesis by blast
qed

lemma includesStr_sublist: "includesStr s p \<longleftrightarrow> sublist p s"
proof (induction s)
  case Nil
  then show ?case by auto
next
  case (Cons c cs)
  have "take (length p) (c # cs) = p \<longleftrightarrow> prefix p (c # cs)"
    by (metis append_eq_conv_conj prefix_def)
  with Cons show ?case by (simp add: sublist_Cons_right)
qed

lemma sublist_trans: "sublist a b \<Longrightarrow> sublist b c \<Longrightarrow> sublist a c"
  using sublist_order.order.trans by blast

lemma sublist_map_string: "sublist a b \<Longrightarrow> sublist (map f a) (map f b)"
proof -
  assume "sublist a b"
  then obtain ps ss where "b = ps @ a @ ss" by (auto simp: sublist_def)
  then have "map f b = map f ps @ map f a @ map f ss" by simp
  then show ?thesis unfolding sublist_def by blast
qed

lemma basename_sublist: "sublist (basename t) t"
proof -
  have "sublist (takeWhile (\<lambda>c. c \<noteq> CHR ''/'') (dropWhile (\<lambda>c. c = CHR ''/'') (rev t))) (rev t)"
    by (rule sublist_trans[OF sublist_takeWhile sublist_dropWhile])
  then show ?thesis by (simp add: basename_def sublist_rev_left)
qed

lemma trim_sublist: "sublist (trim s) s"
proof -
  have "sublist (dropWhile isWhiteSpace (rev (dropWhile isWhiteSpace s))) (rev (dropWhile isWhiteSpace s))"
    by (rule sublist_dropWhile)
  then have "sublist (trim s) (dropWhile isWhiteSpace s)"
    by (simp add: trim_def sublist_rev_left)
  then show ?thesis by (rule sublist_trans[OF _ sublist_dropWhile])
qed

lemma splitWhitespace_hd_prefix: "prefix (hd (splitWhitespace s)) s"
  by (induction s rule: splitWhitespace.induct) (auto split: list.splits)

lemma splitWhitespace_sublist: "t \<in> set (splitWhitespace s) \<Longrightarrow> sublist t s"
proof (induction s arbitrary: t rule: splitWhitespace.induct)
  case 1
  then show ?case by simp
next
  case (2 c cs)
  show ?case
  proof (cases "isWhiteSpace c")
    case True
    with "2.prems" have "t = [] \<or> t \<in> set (splitWhitespace (dropWhile isWhiteSpace cs))"
      by auto
    then show ?thesis
    proof
      assume "t = []"
      then show ?thesis by simp
    next
      assume "t \<in> set (splitWhitespace (dropWhile isWhiteSpace cs))"
      then have "sublist t (dropWhile isWhiteSpace cs)" using "2.IH"(1)[OF True] by blast
      then have "sublist t cs" by (rule sublist_trans[OF _ sublist_dropWhile])
      then show ?thesis by (simp add: sublist_Cons_right)
    qed
  next
    case False
    obtain u us where u: "splitWhitespace cs = u # us"
      using splitWhitespace_not_Nil[of cs] by (cases "splitWhitespace cs") auto
    with False "2.prems" have "t = c # u \<or> t \<in> set us" by auto
    then show ?thesis
    proof
      assume "t = c # u"
      moreover have "prefix u cs" using splitWhitespace_hd_prefix[of cs] u by simp
      ultimately show ?thesis by (simp add: sublist_Cons_right)
    next
      assume "t \<in> set us"
      then have "sublist t cs" using "2.IH"(2)[OF False, of t] u by simp
      then show ?thesis by (simp add: sublist_Cons_right)
    qed
  qed
qed

lemma matchOperator_suffix: "matchOperator s = Some r \<Longrightarrow> suffix r s"
  by (induction s rule: matchOperator.induct)
     (auto split: if_splits simp: suffix_Cons intro: suffix_ConsI)

lemma matchSeparator_suffix: "matchSeparator s = Some r \<Longrightarrow> suffix r s"
proof -
  assume "matchSeparator s = Some r"
  then obtain r0 where r0: "matchOperator (dropWhile isWhiteSpace s) = Some r0"
    and r: "r = dropWhile isWhiteSpace r0"
    by (auto simp: matchSeparator_def split: option.splits)
  have "suffix r r0" using r by (simp add: suffix_dropWhile)
  also have "suffix r0 (dropWhile isWhiteSpace s)" using r0 by (rule matchOperator_suffix)
  also have "suffix (dropWhile isWhiteSpace s) s" by (rule suffix_dropWhile)
  finally show ?thesis .
qed

lemma splitSeparators_hd_prefix: "prefix (hd (splitSeparators s)) s"
  by (induction s rule: splitSeparators.induct) (auto split: list.splits option.splits)

lemma splitSeparators_sublist: "seg \<in> set (splitSeparators s) \<Longrightarrow> sublist seg s"
proof (induction s arbitrary: seg rule: splitSeparators.induct)
  case 1
  then show ?case by simp
next
  case (2 c cs)
  show ?case
  proof (cases "matchSeparator (c # cs)")
    case (Some rest)
    with "2.prems" have "seg = [] \<or> seg \<in> set (splitSeparators rest)" by auto
    then show ?thesis
    proof
      assume "seg = []"
      then show ?thesis by simp
    next
      assume "seg \<in> set (splitSeparators rest)"
      then have "sublist seg rest" using "2.IH"(2)[OF Some] by blast
      moreover have "sublist rest (c # cs)"
        using matchSeparator_suffix[OF Some] by (rule suffix_imp_sublist)
      ultimately show ?thesis by (rule sublist_trans)
    qed
  next
    case None
    obtain t ts where tts: "splitSeparators cs = t # ts"
      using splitSeparators_not_Nil[of cs] by (cases "splitSeparators cs") auto
    with None "2.prems" have "seg = c # t \<or> seg \<in> set ts" by auto
    then show ?thesis
    proof
      assume "seg = c # t"
      moreover have "prefix t cs" using splitSeparators_hd_prefix[of cs] tts by simp
      ultimately show ?thesis by (simp add: sublist_Cons_right)
    next
      assume "seg \<in> set ts"
      then have "sublist seg cs" using "2.IH"(1)[OF None, of seg] tts by simp
      then show ?thesis by (simp add: sublist_Cons_right)
    qed
  qed
qed

lemma commandName_sublist:
  assumes "name \<in> set (extractAllCommandNames s)"
  shows "sublist name s"
proof -
  from assms obtain seg where seg: "seg \<in> set (splitSeparators s)"
    "segmentCommandName seg = Some name"
    by (auto simp: extractAllCommandNames_def List.map_filter_def)
  from segmentCommandName_basename[OF seg(2)] obtain token where
    t: "token \<in> set (splitWhitespace (trim seg))" "name = basename token" by blast
  have "sublist name token" using t(2) basename_sublist by simp
  also have "sublist token (trim seg)" using t(1) by (rule splitWhitespace_sublist)
  also have "sublist (trim seg) seg" by (rule trim_sublist)
  also have "sublist seg s" using seg(1) by (rule splitSeparators_sublist)
  finally show ?thesis .
qed

lemma name_match_is_substring:
  assumes "list_ex (\<lambda>cmdName. toLowerCase cmdName = patternLower) (extractAllCommandNames s)"
  shows "includesStr (toLowerCase s) patternLower"
proof -
  from assms obtain name where n: "name \<in> set (extractAllCommandNames s)"
    "toLowerCase name = patternLower" by (auto simp: list_ex_iff)
  have "sublist name s" using n(1) by (rule commandName_sublist)
  then have "sublist (toLowerCase name) (toLowerCase s)"
    unfolding toLowerCase_def by (rule sublist_map_string)
  with n(2) show ?thesis by (simp add: includesStr_sublist)
qed

text \<open>
  Claim C7. When the expression built for a non-blank pattern does not compile, the
  pattern blocks exactly when its trimmed lower-case form is a substring of the
  lower-cased normalized command (a command name equal to the pattern is such a
  substring); nothing is thrown. And \<open>validateBlocklistPattern\<close> reports a non-blank
  pattern that does not compile as valid, with the warning that substring matching
  will be used.
\<close>

theorem invalid_regex_falls_back_to_substring:
  "(trim (toLowerCase pattern) \<noteq> [] \<longrightarrow>
    RegExp_i (if isSimpleCommand (trim (toLowerCase pattern)) \<and> \<not> includesStr pattern wordBoundary
              then wordBoundary @ pattern @ wordBoundary else pattern) = Inl message \<longrightarrow>
    patternBlocks RegExp_i (normalizeCommand command)
        (extractAllCommandNames (normalizeCommand command)) pattern =
      includesStr (toLowerCase (normalizeCommand command)) (trim (toLowerCase pattern)) \<and>
    (command \<noteq> [] \<longrightarrow>
       isCommandBlocked RegExp_i command [pattern] True =
         includesStr (toLowerCase (normalizeCommand command)) (trim (toLowerCase pattern)))) \<and>
   (trim pattern \<noteq> [] \<longrightarrow> RegExp_i pattern = Inl message \<longrightarrow>
    validateBlocklistPattern RegExp_i pattern =
      \<lparr>isValid = True, error = Some (''Invalid regex, will use substring match: '' @ message)\<rparr>)"
proof (intro conjI impI)
  assume a: "trim (toLowerCase pattern) \<noteq> []"
    "RegExp_i (if isSimpleCommand (trim (toLowerCase pattern)) \<and> \<not> includesStr pattern wordBoundary
              then wordBoundary @ pattern @ wordBoundary else pattern) = Inl message"
  let ?n = "normalizeCommand command"
  have "patternBlocks RegExp_i ?n (extractAllCommandNames ?n) pattern =
          (list_ex (\<lambda>cmdName. toLowerCase cmdName = trim (toLowerCase pattern))
             (extractAllCommandNames ?n) \<or>
           includesStr (toLowerCase ?n) (trim (toLowerCase pattern)))"
    using a by (auto simp: patternBlocks_def Let_def)
  then show p: "patternBlocks RegExp_i ?n (extractAllCommandNames ?n) pattern =
          includesStr (toLowerCase ?n) (trim (toLowerCase pattern))"
    using name_match_is_substring[of "trim (toLowerCase pattern)" ?n] by blast
  assume "command \<noteq> []"
  then show "isCommandBlocked RegExp_i command [pattern] True =
         includesStr (toLowerCase ?n) (trim (toLowerCase pattern))"
    using p by (simp add: isCommandBlocked_def Let_def)
next
  assume "trim pattern \<noteq> []" "RegExp_i pattern = Inl message"
  then show "validateBlocklistPattern RegExp_i pattern =
      \<lparr>isValid = True, error = Some (''Invalid regex, will use substring match: '' @ message)\<rparr>"
    by (simp add: validateBlocklistPattern_def)
qed

text \<open>
  Witness for C7: the pattern \<open>A(\<close> does not compile.
\<close>

theorem invalid_regex_falls_back_to_substring_witness:
  "isCommandBlocked literalEngine ''echo a(b'' [''A(''] True = True \<and>
   validateBlocklistPattern literalEngine ''A('' =
     \<lparr>isValid = True,
      error = Some ''Invalid regex, will use substring match: Invalid regular expression''\<rparr>"
proof -
  have t: "trim (toLowerCase ''A('') \<noteq> []" by code_simp
  have t2: "trim ''A('' \<noteq> []" by code_simp
  have s: "\<not> isSimpleCommand (trim (toLowerCase ''A(''))" by code_simp
  have e: "literalEngine ''A('' = Inl ''Invalid regular expression''"
    by (simp add: literalEngine_def)
  have i: "includesStr (toLowerCase (normalizeCommand ''echo a(b'')) (trim (toLowerCase ''A(''))"
    by code_simp
  from invalid_regex_falls_back_to_substring[of "''A(''" literalEngine "''Invalid regular expression''" "''echo a(b''"]
    t t2 s e i
  show ?thesis by simp
qed

lemma literalEngine_ecma: "ecmaWordBoundedLiterals literalEngine"
  unfolding ecmaWordBoundedLiterals_def
proof (intro allI impI)
  fix body
  assume b: "list_all (\<lambda>c. isSimpleChar c \<or> isWhiteSpace c) body"
  have "literalEngine (wordBoundary @ body @ wordBoundary) = Inr (wordBoundedTest body)"
    using b by (simp add: literalEngine_def wordBoundary_def)
  then show "\<exists>test. literalEngine (wordBoundary @ body @ wordBoundary) = Inr test \<and>
                (\<forall>s. test s = wordBoundedTest body s)" by simp
qed


lemma includesStr_hd: "includesStr s p \<Longrightarrow> p \<noteq> [] \<Longrightarrow> hd p \<in> set s"
proof (induction s)
  case Nil
  then show ?case by simp
next
  case (Cons c cs)
  show ?case
  proof (cases "take (length p) (c # cs) = p")
    case True
    with Cons.prems(2) have "hd p = c" by (cases p) auto
    then show ?thesis by simp
  next
    case False
    with Cons show ?thesis by auto
  qed
qed

lemma literal_has_no_wordBoundary:
  assumes "list_all (\<lambda>c. isSimpleChar c \<or> isWhiteSpace c) pattern"
  shows "\<not> includesStr pattern wordBoundary"
proof
  assume "includesStr pattern wordBoundary"
  then have "backslash \<in> set pattern"
    using includesStr_hd[of pattern wordBoundary] by (simp add: wordBoundary_def)
  with assms have "isSimpleChar backslash \<or> isWhiteSpace backslash"
    by (auto simp: list_all_iff)
  then show False
    by (simp add: isSimpleChar_def isAsciiLetter_def isDigit_def isWhiteSpace_def backslash_def)
qed

lemma simple_pattern_blocks:
  assumes "ecmaWordBoundedLiterals RegExp_i"
    and "list_all (\<lambda>c. isSimpleChar c \<or> isWhiteSpace c) pattern"
    and "isSimpleCommand (trim (toLowerCase pattern))"
  shows "patternBlocks RegExp_i normalizedCommand commandNames pattern =
           (list_ex (\<lambda>cmdName. toLowerCase cmdName = trim (toLowerCase pattern)) commandNames \<or>
            wordBoundedTest pattern normalizedCommand)"
proof -
  from assms(1,2) obtain test where
    t: "RegExp_i (wordBoundary @ pattern @ wordBoundary) = Inr test"
       "\<And>s. test s = wordBoundedTest pattern s"
    unfolding ecmaWordBoundedLiterals_def by blast
  have n: "trim (toLowerCase pattern) \<noteq> []" using assms(3) by (auto simp: isSimpleCommand_def)
  have w: "\<not> includesStr pattern wordBoundary"
    using assms(2) by (rule literal_has_no_wordBoundary)
  show ?thesis using t n w assms(3) by (simp add: patternBlocks_def Let_def)
qed

text \<open>
  Claim C5 at a simple pattern that begins with a hyphen. \<open>\b\<close> in front of a hyphen
  asks for a word character before it, so \<open>--force\<close> standing alone behind a space is
  not matched, while \<open>--force\<close> glued to the end of a longer word is.
\<close>

theorem hyphen_edged_pattern_evaluation:
  assumes "ecmaWordBoundedLiterals RegExp_i"
  shows "isCommandBlocked RegExp_i ''git push --force'' [''--force''] True = False \<and>
         isCommandBlocked RegExp_i ''echo x--force'' [''--force''] True = True"
proof -
  have l: "list_all (\<lambda>c. isSimpleChar c \<or> isWhiteSpace c) ''--force''" by code_simp
  have s: "isSimpleCommand (trim (toLowerCase ''--force''))" by code_simp
  note p = simple_pattern_blocks[OF assms l s]
  have a: "\<not> list_ex (\<lambda>cmdName. toLowerCase cmdName = trim (toLowerCase ''--force''))
              (extractAllCommandNames (normalizeCommand ''git push --force''))" by code_simp
  have b: "\<not> wordBoundedTest ''--force'' (normalizeCommand ''git push --force'')" by code_simp
  have c: "wordBoundedTest ''--force'' (normalizeCommand ''echo x--force'')" by code_simp
  show ?thesis using a b c by (simp add: isCommandBlocked_def Let_def p)
qed

text \<open>
  Witness for C5: the engine of the word-bounded literals.
\<close>

theorem hyphen_edged_pattern_evaluation_witness:
  "isCommandBlocked literalEngine ''git push --force'' [''--force''] True = False \<and>
   isCommandBlocked literalEngine ''echo x--force'' [''--force''] True = True"
  using hyphen_edged_pattern_evaluation[OF literalEngine_ecma] .

text \<open>
  The four commands of claim C5 against the pattern \<open>rm\<close>.
\<close>

lemma rm_pattern_examples:
  assumes "ecmaWordBoundedLiterals RegExp_i"
  shows "\<not> isCommandBlocked RegExp_i ''format-disk'' [''rm''] True"
    and "\<not> isCommandBlocked RegExp_i ''format C:'' [''rm''] True"
    and "isCommandBlocked RegExp_i ''rm -rf /tmp'' [''rm''] True"
    and "isCommandBlocked RegExp_i ''/bin/rm file.txt'' [''rm''] True"
proof -
  have l: "list_all (\<lambda>c. isSimpleChar c \<or> isWhiteSpace c) ''rm''" by code_simp
  have s: "isSimpleCommand (trim (toLowerCase ''rm''))" by code_simp
  note p = simple_pattern_blocks[OF assms l s]
  have a: "\<not> list_ex (\<lambda>cmdName. toLowerCase cmdName = trim (toLowerCase ''rm''))
              (extractAllCommandNames (normalizeCommand ''format-disk''))" by code_simp
  have b: "\<not> wordBoundedTest ''rm'' (normalizeCommand ''format-disk'')" by code_simp
  show "\<not> isCommandBlocked RegExp_i ''format-disk'' [''rm''] True"
    using a b by (simp add: isCommandBlocked_def Let_def p)
  have a: "\<not> list_ex (\<lambda>cmdName. toLowerCase cmdName = trim (toLowerCase ''rm''))
              (extractAllCommandNames (normalizeCommand ''format C:''))" by code_simp
  have b: "\<not> wordBoundedTest ''rm'' (normalizeCommand ''format C:'')" by code_simp
  show "\<not> isCommandBlocked RegExp_i ''format C:'' [''rm''] True"
    using a b by (simp add: isCommandBlocked_def Let_def p)
  have a: "list_ex (\<lambda>cmdName. toLowerCase cmdName = trim (toLowerCase ''rm''))
              (extractAllCommandNames (normalizeCommand ''rm -rf /tmp''))" by code_simp
  show "isCommandBlocked RegExp_i ''rm -rf /tmp'' [''rm''] True"
    using a by (simp add: isCommandBlocked_def Let_def p)
  have a: "list_ex (\<lambda>cmdName. toLowerCase cmdName = trim (toLowerCase ''rm''))
              (extractAllCommandNames (normalizeCommand ''/bin/rm file.txt''))" by code_simp
  show "isCommandBlocked RegExp_i ''/bin/rm file.txt'' [''rm''] True"
    using a by (simp add: isCommandBlocked_def Let_def p)
qed

lemma underscore_code: "c = CHR ''_'' \<longleftrightarrow> of_char c = (95::nat)"
proof -
  have "of_char (CHR ''_'') = (95::nat)" by simp
  then show ?thesis by (metis of_char_eq_iff)
qed

lemma hyphen_code: "c = CHR ''-'' \<longleftrightarrow> of_char c = (45::nat)"
proof -
  have "of_char (CHR ''-'') = (45::nat)" by simp
  then show ?thesis by (metis of_char_eq_iff)
qed

lemma of_char_canonicalize:
  "(of_char (canonicalize c) :: nat) =
     (let n = of_char c in
      if (97 \<le> n \<and> n \<le> 122) \<or> (224 \<le> n \<and> n \<le> 254 \<and> n \<noteq> 247) then n - 32 else n)"
  by (auto simp: canonicalize_def Let_def)

lemma isWordChar_canonicalize:
  "isWordChar c \<longleftrightarrow>
     (let k = (of_char (canonicalize c) :: nat) in (65 \<le> k \<and> k \<le> 90) \<or> (48 \<le> k \<and> k \<le> 57) \<or> k = 95)"
  unfolding of_char_canonicalize isWordChar_def isAsciiLetter_def isDigit_def underscore_code Let_def
  by auto

lemma canonicalize_wordChar:
  "canonicalize x = canonicalize y \<Longrightarrow> isWordChar x = isWordChar y"
  by (simp add: isWordChar_canonicalize)


lemma boundary_before:
  assumes "m \<noteq> []"
  shows "wordBoundaryAt (before @ m @ after) (length before) \<longleftrightarrow>
           ((before \<noteq> [] \<and> isWordChar (last before)) \<noteq> isWordChar (hd m))"
proof -
  have a: "(before @ m @ after) ! length before = hd m"
    using assms by (simp add: nth_append hd_conv_nth)
  have b: "before \<noteq> [] \<Longrightarrow> (before @ m @ after) ! (length before - 1) = last before"
    by (simp add: nth_append last_conv_nth)
  show ?thesis
  proof (cases "before = []")
    case True
    with assms a show ?thesis by (simp add: wordBoundaryAt_def)
  next
    case False
    with assms a b show ?thesis by (simp add: wordBoundaryAt_def)
  qed
qed

lemma boundary_after:
  assumes "m \<noteq> []"
  shows "wordBoundaryAt (before @ m @ after) (length before + length m) \<longleftrightarrow>
           (isWordChar (last m) \<noteq> (after \<noteq> [] \<and> isWordChar (hd after)))"
proof -
  have "wordBoundaryAt ((before @ m) @ after @ []) (length (before @ m)) \<longleftrightarrow>
          (((before @ m) \<noteq> [] \<and> isWordChar (last (before @ m))) \<noteq>
           (after \<noteq> [] \<and> isWordChar (hd after)))"
  proof (cases "after = []")
    case True
    with assms show ?thesis
      by (simp add: wordBoundaryAt_def nth_append last_conv_nth)
  next
    case False
    then show ?thesis using boundary_before[of after "before @ m" "[]"] by simp
  qed
  with assms show ?thesis by simp
qed

lemma wordBoundedTest_iff:
  "wordBoundedTest body s \<longleftrightarrow> (\<exists>i. wordBoundedAt body s i)"
proof
  assume "wordBoundedTest body s"
  then show "\<exists>i. wordBoundedAt body s i" by (auto simp: wordBoundedTest_def list_ex_iff)
next
  assume "\<exists>i. wordBoundedAt body s i"
  then obtain i where i: "wordBoundedAt body s i" by blast
  then have "i \<le> length s" by (simp add: wordBoundedAt_def)
  then have "i \<in> set [0..<Suc (length s)]" by auto
  with i show "wordBoundedTest body s"
    unfolding wordBoundedTest_def list_ex_iff by blast
qed

lemma word_edged_test:
  assumes "pattern \<noteq> []" "isWordChar (hd pattern)" "isWordChar (last pattern)"
  shows "wordBoundedTest pattern s \<longleftrightarrow> wholeWordOccurrence pattern s"
proof
  assume "wordBoundedTest pattern s"
  then obtain i where i: "wordBoundedAt pattern s i" by (auto simp: wordBoundedTest_iff)
  let ?before = "take i s"
  let ?m = "take (length pattern) (drop i s)"
  let ?after = "drop (length pattern) (drop i s)"
  from i have le: "i + length pattern \<le> length s"
    and c: "map canonicalize ?m = map canonicalize pattern"
    and b1: "wordBoundaryAt s i"
    and b2: "wordBoundaryAt s (i + length pattern)"
    by (simp_all add: wordBoundedAt_def)
  have s: "s = ?before @ ?m @ ?after" by (simp only: append_take_drop_id)
  have lb: "length ?before = i" using le by simp
  have lm: "length ?m = length pattern" using le by simp
  with assms(1) have mne: "?m \<noteq> []" by auto
  have "canonicalize (hd ?m) = canonicalize (hd pattern)"
    using c mne assms(1) by (metis hd_map)
  then have hm: "isWordChar (hd ?m)" using assms(2) canonicalize_wordChar by blast
  have "canonicalize (last ?m) = canonicalize (last pattern)"
    using c mne assms(1) by (metis last_map)
  then have lstm: "isWordChar (last ?m)" using assms(3) canonicalize_wordChar by blast
  have "wordBoundaryAt (?before @ ?m @ ?after) (length ?before)"
    using b1 lb s by simp
  then have x: "?before = [] \<or> \<not> isWordChar (last ?before)"
    using hm by (simp only: boundary_before[OF mne]) blast
  have "wordBoundaryAt (?before @ ?m @ ?after) (length ?before + length ?m)"
    using b2 lb lm s by simp
  then have y: "?after = [] \<or> \<not> isWordChar (hd ?after)"
    using lstm by (simp only: boundary_after[OF mne]) blast
  show "wholeWordOccurrence pattern s"
    unfolding wholeWordOccurrence_def using s c x y by blast
next
  assume "wholeWordOccurrence pattern s"
  then obtain before m after where s: "s = before @ m @ after"
    and c: "map canonicalize m = map canonicalize pattern"
    and x: "before = [] \<or> \<not> isWordChar (last before)"
    and y: "after = [] \<or> \<not> isWordChar (hd after)"
    unfolding wholeWordOccurrence_def by blast
  have lm: "length m = length pattern" using c by (metis length_map)
  with assms(1) have mne: "m \<noteq> []" by auto
  have "canonicalize (hd m) = canonicalize (hd pattern)"
    using c mne assms(1) by (metis hd_map)
  then have hm: "isWordChar (hd m)" using assms(2) canonicalize_wordChar by blast
  have "canonicalize (last m) = canonicalize (last pattern)"
    using c mne assms(1) by (metis last_map)
  then have lstm: "isWordChar (last m)" using assms(3) canonicalize_wordChar by blast
  have b1: "wordBoundaryAt s (length before)"
    unfolding s using x hm by (simp only: boundary_before[OF mne]) blast
  have b2: "wordBoundaryAt s (length before + length pattern)"
    unfolding s lm[symmetric] using y lstm by (simp only: boundary_after[OF mne]) blast
  have "take (length pattern) (drop (length before) s) = m" using s lm by simp
  then have "wordBoundedAt pattern s (length before)"
    using b1 b2 c s lm by (simp add: wordBoundedAt_def)
  then show "wordBoundedTest pattern s" by (auto simp: wordBoundedTest_iff)
qed

lemma isWhiteSpace_code:
  "isWhiteSpace c \<longleftrightarrow> (of_char c :: nat) \<in> {9, 10, 11, 12, 13, 32, 160}"
proof -
  have "of_char (CHR 0x09) = (9::nat)" "of_char (CHR 0x0A) = (10::nat)"
    "of_char (CHR 0x0B) = (11::nat)" "of_char (CHR 0x0C) = (12::nat)"
    "of_char (CHR 0x0D) = (13::nat)" "of_char (CHR 0x20) = (32::nat)"
    "of_char (CHR 0xA0) = (160::nat)" by simp_all
  moreover have "isWhiteSpace c \<longleftrightarrow>
      (of_char c :: nat) = of_char (CHR 0x09) \<or> (of_char c :: nat) = of_char (CHR 0x0A) \<or>
      (of_char c :: nat) = of_char (CHR 0x0B) \<or> (of_char c :: nat) = of_char (CHR 0x0C) \<or>
      (of_char c :: nat) = of_char (CHR 0x0D) \<or> (of_char c :: nat) = of_char (CHR 0x20) \<or>
      (of_char c :: nat) = of_char (CHR 0xA0)"
    unfolding isWhiteSpace_def by (simp only: of_char_eq_iff)
  ultimately show ?thesis by simp
qed

lemma simpleChar_lower:
  assumes "isSimpleChar c"
  shows "isSimpleChar (toLowerChar c)" and "\<not> isWhiteSpace c" and "\<not> isWhiteSpace (toLowerChar c)"
proof -
  have l: "(of_char (toLowerChar c) :: nat) =
     (let n = of_char c in
      if (65 \<le> n \<and> n \<le> 90) \<or> (192 \<le> n \<and> n \<le> 222 \<and> n \<noteq> 215) then n + 32 else n)"
    by (auto simp: toLowerChar_def Let_def)
  have d: "isSimpleChar x \<longleftrightarrow>
     (let n = (of_char x :: nat) in
      (65 \<le> n \<and> n \<le> 90) \<or> (97 \<le> n \<and> n \<le> 122) \<or> (48 \<le> n \<and> n \<le> 57) \<or> n = 95 \<or> n = 45)" for x
    unfolding isSimpleChar_def isAsciiLetter_def isDigit_def underscore_code hyphen_code Let_def
    by auto
  show "isSimpleChar (toLowerChar c)" using assms unfolding d l Let_def by auto
  show "\<not> isWhiteSpace c" using assms unfolding d isWhiteSpace_code Let_def by auto
  show "\<not> isWhiteSpace (toLowerChar c)" using assms unfolding d l isWhiteSpace_code Let_def by auto
qed

lemma trim_id: "s \<noteq> [] \<Longrightarrow> \<not> isWhiteSpace (hd s) \<Longrightarrow> \<not> isWhiteSpace (last s) \<Longrightarrow> trim s = s"
proof -
  assume a: "s \<noteq> []" "\<not> isWhiteSpace (hd s)" "\<not> isWhiteSpace (last s)"
  then have "dropWhile isWhiteSpace s = s" by (cases s) auto
  moreover have "dropWhile isWhiteSpace (rev s) = rev s"
    using a by (cases "rev s") (auto simp: hd_rev dest: arg_cong[where f=hd])
  ultimately show ?thesis by (simp add: trim_def)
qed

lemma simple_pattern_lower:
  assumes "isSimpleCommand pattern"
  shows "trim (toLowerCase pattern) = toLowerCase pattern"
    and "isSimpleCommand (toLowerCase pattern)"
    and "list_all (\<lambda>c. isSimpleChar c \<or> isWhiteSpace c) pattern"
proof -
  from assms have ne: "pattern \<noteq> []" and all: "\<forall>c\<in>set pattern. isSimpleChar c"
    by (auto simp: isSimpleCommand_def list_all_iff)
  have l: "\<forall>c\<in>set (toLowerCase pattern). isSimpleChar c \<and> \<not> isWhiteSpace c"
    using all simpleChar_lower by (auto simp: toLowerCase_def)
  have lne: "toLowerCase pattern \<noteq> []" using ne by (simp add: toLowerCase_def)
  then have "hd (toLowerCase pattern) \<in> set (toLowerCase pattern)"
    "last (toLowerCase pattern) \<in> set (toLowerCase pattern)" by simp_all
  with l lne show "trim (toLowerCase pattern) = toLowerCase pattern"
    by (intro trim_id) auto
  show "isSimpleCommand (toLowerCase pattern)"
    using l lne by (simp add: isSimpleCommand_def list_all_iff)
  show "list_all (\<lambda>c. isSimpleChar c \<or> isWhiteSpace c) pattern"
    using all by (simp add: list_all_iff)
qed

text \<open>
  A simple pattern that begins and ends with a word character blocks exactly when a
  command name equals it or it occurs in the normalized command as a whole word.
\<close>

lemma word_edged_simple_pattern:
  assumes "ecmaWordBoundedLiterals RegExp_i"
    and "isSimpleCommand pattern"
    and "isWordChar (hd pattern)" and "isWordChar (last pattern)"
    and "command \<noteq> []"
  shows "isCommandBlocked RegExp_i command [pattern] True \<longleftrightarrow>
           list_ex (\<lambda>cmdName. toLowerCase cmdName = toLowerCase pattern)
             (extractAllCommandNames (normalizeCommand command)) \<or>
           wholeWordOccurrence pattern (normalizeCommand command)"
proof -
  note l = simple_pattern_lower[OF assms(2)]
  have s: "isSimpleCommand (trim (toLowerCase pattern))" using l(1,2) by simp
  have ne: "pattern \<noteq> []" using assms(2) by (auto simp: isSimpleCommand_def)
  show ?thesis
    using assms(5) l(1)
    by (simp add: isCommandBlocked_def Let_def simple_pattern_blocks[OF assms(1) l(3) s]
        word_edged_test[OF ne assms(3,4)])
qed

text \<open>
  What the kept backslash means for the blocklist: with the pattern \<open>rm\<close>, the command
  \<open>r\m -rf /\<close> is blocked and the same command behind one space is not.
\<close>

lemma leading_space_bypass:
  assumes "ecmaWordBoundedLiterals RegExp_i"
  shows "isCommandBlocked RegExp_i (''r'' @ [backslash] @ ''m -rf /'') [''rm''] True"
    and "\<not> isCommandBlocked RegExp_i ('' r'' @ [backslash] @ ''m -rf /'') [''rm''] True"
proof -
  have l: "list_all (\<lambda>c. isSimpleChar c \<or> isWhiteSpace c) ''rm''" by code_simp
  have s: "isSimpleCommand (trim (toLowerCase ''rm''))" by code_simp
  note p = simple_pattern_blocks[OF assms l s]
  have a: "list_ex (\<lambda>cmdName. toLowerCase cmdName = trim (toLowerCase ''rm''))
              (extractAllCommandNames (normalizeCommand (''r'' @ [backslash] @ ''m -rf /'')))"
    by code_simp
  show "isCommandBlocked RegExp_i (''r'' @ [backslash] @ ''m -rf /'') [''rm''] True"
    using a by (simp add: isCommandBlocked_def Let_def p)
  have a: "\<not> list_ex (\<lambda>cmdName. toLowerCase cmdName = trim (toLowerCase ''rm''))
              (extractAllCommandNames (normalizeCommand ('' r'' @ [backslash] @ ''m -rf /'')))"
    by code_simp
  have b: "\<not> wordBoundedTest ''rm'' (normalizeCommand ('' r'' @ [backslash] @ ''m -rf /''))"
    by code_simp
  show "\<not> isCommandBlocked RegExp_i ('' r'' @ [backslash] @ ''m -rf /'') [''rm''] True"
    using a b by (simp add: isCommandBlocked_def Let_def p)
qed

section \<open>Properties of the vault hook\<close>

text \<open>
  Claim C8. For a Bash invocation the run begins with the dangerous-construct check on
  the state the hook is entered in. When that check finds a construct, the state it
  leaves is the state the run ends in, so neither the path check nor the classifier is
  called, the verdict is the denial whose reason quotes the construct in the sentence of
  its variant, and the outcome is the same whatever the path check and the classifier
  are. When it finds none, the path check runs on the state the construct check left,
  and its result decides.
\<close>

theorem construct_check_precedes_path_check:
  assumes "isHookToolInput hookInput" and "extractToolName hookInput = TOOL_BASH"
  shows "(\<forall>d s1. findDangerousConstruct M (extractBashCommand hookInput) s = (Some d, s1) \<longrightarrow>
            vaultRestrictionHook M ctx hookInput s =
              (Deny (case d of
                 CommandSubstitution pattern \<Rightarrow>
                   ''Access denied: Command substitution '' @ [CHR 0x22] @ pattern @ [CHR 0x22] @
                   '' is not allowed as it could execute arbitrary code.''
               | BacktickSubstitution pattern \<Rightarrow>
                   ''Access denied: Backtick substitution '' @ [CHR 0x22] @ pattern @ [CHR 0x22] @
                   '' is not allowed as it could execute arbitrary code.''
               | DangerousBuiltin command \<Rightarrow>
                   ''Access denied: The '' @ [CHR 0x22] @ command @ [CHR 0x22] @
                   '' command is not allowed as it could execute arbitrary code.''
               | HexEscape pattern \<Rightarrow>
                   ''Access denied: Hex/octal escape sequences '' @ [CHR 0x22] @ pattern @ [CHR 0x22] @
                   '' are not allowed as they could obfuscate malicious paths.''
               | ProcessSubstitution pattern \<Rightarrow>
                   ''Access denied: Process substitution '' @ [CHR 0x22] @ pattern @ [CHR 0x22] @
                   '' is not allowed as it could execute arbitrary code.''),
               s1) \<and>
            (\<forall>M' ctx'. findDangerousConstruct M' = findDangerousConstruct M \<longrightarrow>
               vaultRestrictionHook M' ctx' hookInput s =
               vaultRestrictionHook M ctx hookInput s)) \<and>
         (\<forall>s1. findDangerousConstruct M (extractBashCommand hookInput) s = (None, s1) \<longrightarrow>
            vaultRestrictionHook M ctx hookInput s =
              (case findBashCommandPathViolation M (extractBashCommand hookInput)
                      (getPathAccessType ctx) s1 of
                 (None, s2) \<Rightarrow> (Continue, s2)
               | (Some violation, s2) \<Rightarrow>
                   (Deny (''Access denied: Command path '' @ [CHR 0x22] @
                          violationPath violation @ [CHR 0x22] @
                          (if violationKind violation = ExportPathRead
                           then '' is in an allowed export directory, but export paths are write-only.''
                           else '' is outside the vault. Agent is restricted to vault directory only.'')),
                    s2)))"
proof (intro conjI allI impI)
  fix d s1
  assume d: "findDangerousConstruct M (extractBashCommand hookInput) s = (Some d, s1)"
  show "vaultRestrictionHook M ctx hookInput s =
              (Deny (case d of
                 CommandSubstitution pattern \<Rightarrow>
                   ''Access denied: Command substitution '' @ [CHR 0x22] @ pattern @ [CHR 0x22] @
                   '' is not allowed as it could execute arbitrary code.''
               | BacktickSubstitution pattern \<Rightarrow>
                   ''Access denied: Backtick substitution '' @ [CHR 0x22] @ pattern @ [CHR 0x22] @
                   '' is not allowed as it could execute arbitrary code.''
               | DangerousBuiltin command \<Rightarrow>
                   ''Access denied: The '' @ [CHR 0x22] @ command @ [CHR 0x22] @
                   '' command is not allowed as it could execute arbitrary code.''
               | HexEscape pattern \<Rightarrow>
                   ''Access denied: Hex/octal escape sequences '' @ [CHR 0x22] @ pattern @ [CHR 0x22] @
                   '' are not allowed as they could obfuscate malicious paths.''
               | ProcessSubstitution pattern \<Rightarrow>
                   ''Access denied: Process substitution '' @ [CHR 0x22] @ pattern @ [CHR 0x22] @
                   '' is not allowed as it could execute arbitrary code.''),
               s1)"
    using assms d by (cases d) (simp_all add: vaultRestrictionHook_def dquote_def)
  fix M' :: "'a modules" and ctx' :: "'a VaultRestrictionContext"
  assume "findDangerousConstruct M' = findDangerousConstruct M"
  then show "vaultRestrictionHook M' ctx' hookInput s = vaultRestrictionHook M ctx hookInput s"
    using assms d by (simp add: vaultRestrictionHook_def)
next
  fix s1
  assume n: "findDangerousConstruct M (extractBashCommand hookInput) s = (None, s1)"
  show "vaultRestrictionHook M ctx hookInput s =
              (case findBashCommandPathViolation M (extractBashCommand hookInput)
                      (getPathAccessType ctx) s1 of
                 (None, s2) \<Rightarrow> (Continue, s2)
               | (Some violation, s2) \<Rightarrow>
                   (Deny (''Access denied: Command path '' @ [CHR 0x22] @
                          violationPath violation @ [CHR 0x22] @
                          (if violationKind violation = ExportPathRead
                           then '' is in an allowed export directory, but export paths are write-only.''
                           else '' is outside the vault. Agent is restricted to vault directory only.'')),
                    s2))"
    using assms n
    by (simp add: vaultRestrictionHook_def commandPathReason_def dquote_def
        split: prod.splits option.splits)
qed

text \<open>
  Witness for C8, on the host that logs its calls: \<open>echo $(cat /etc/passwd)\<close> is denied
  with the construct check as the only call, and \<open>cat /etc/hosts\<close> is denied by the path
  check, which is logged behind the construct check and before the classifier it asks.
\<close>

theorem construct_check_precedes_path_check_witness:
  "vaultRestrictionHook exampleModules exampleContext
     (invocation ''Bash'' [(''command'', JString ''echo $(cat /etc/passwd)'')]) [] =
   (Deny (''Access denied: Command substitution '' @ [CHR 0x22] @ ''$('' @ [CHR 0x22] @
          '' is not allowed as it could execute arbitrary code.''),
    [FindDangerousConstruct ''echo $(cat /etc/passwd)'']) \<and>
   vaultRestrictionHook exampleModules exampleContext
     (invocation ''Bash'' [(''command'', JString ''cat /etc/hosts'')]) [] =
   (Deny (''Access denied: Command path '' @ [CHR 0x22] @ ''/etc/hosts'' @ [CHR 0x22] @
          '' is outside the vault. Agent is restricted to vault directory only.''),
    [FindDangerousConstruct ''cat /etc/hosts'', FindBashCommandPathViolation ''cat /etc/hosts'',
     GetPathAccessType ''/etc/hosts''])"
proof -
  have h: "isHookToolInput (invocation ''Bash'' [(''command'', JString c)])" for c
    by (simp add: invocation_def isHookToolInput_def)
  have n: "extractToolName (invocation ''Bash'' [(''command'', JString c)]) = TOOL_BASH" for c
    by (simp add: invocation_def isHookToolInput_def extractToolName_def TOOL_BASH_def)
  have c: "extractBashCommand (invocation ''Bash'' [(''command'', JString c)]) = c" for c
    by (simp add: invocation_def isHookToolInput_def isBashHookInput_def extractBashCommand_def)
  have d: "findDangerousConstruct exampleModules ''echo $(cat /etc/passwd)'' [] =
             (Some (CommandSubstitution ''$(''), [FindDangerousConstruct ''echo $(cat /etc/passwd)''])"
    by (simp add: exampleModules_def)
  have e: "findDangerousConstruct exampleModules ''cat /etc/hosts'' [] =
             (None, [FindDangerousConstruct ''cat /etc/hosts''])"
    by (simp add: exampleModules_def)
  have p: "findBashCommandPathViolation exampleModules ''cat /etc/hosts''
             (getPathAccessType exampleContext) [FindDangerousConstruct ''cat /etc/hosts''] =
           (Some \<lparr>violationKind = OutsideVault, violationPath = ''/etc/hosts''\<rparr>,
            [FindDangerousConstruct ''cat /etc/hosts'', FindBashCommandPathViolation ''cat /etc/hosts'',
             GetPathAccessType ''/etc/hosts''])"
    by (simp add: exampleModules_def exampleContext_def isWhiteSpace_def)
  note t1 = construct_check_precedes_path_check[
      where hookInput = "invocation ''Bash'' [(''command'', JString ''echo $(cat /etc/passwd)'')]"
        and M = exampleModules and ctx = exampleContext and s = "[]", OF h n, unfolded c]
  note t2 = construct_check_precedes_path_check[
      where hookInput = "invocation ''Bash'' [(''command'', JString ''cat /etc/hosts'')]"
        and M = exampleModules and ctx = exampleContext and s = "[]", OF h n, unfolded c]
  from t1 d have a: "vaultRestrictionHook exampleModules exampleContext
     (invocation ''Bash'' [(''command'', JString ''echo $(cat /etc/passwd)'')]) [] =
   (Deny (''Access denied: Command substitution '' @ [CHR 0x22] @ ''$('' @ [CHR 0x22] @
          '' is not allowed as it could execute arbitrary code.''),
    [FindDangerousConstruct ''echo $(cat /etc/passwd)''])"
    by simp
  from t2 e p have b: "vaultRestrictionHook exampleModules exampleContext
     (invocation ''Bash'' [(''command'', JString ''cat /etc/hosts'')]) [] =
   (Deny (''Access denied: Command path '' @ [CHR 0x22] @ ''/etc/hosts'' @ [CHR 0x22] @
          '' is outside the vault. Agent is restricted to vault directory only.''),
    [FindDangerousConstruct ''cat /etc/hosts'', FindBashCommandPathViolation ''cat /etc/hosts'',
     GetPathAccessType ''/etc/hosts''])"
    by simp
  from a b show ?thesis by (rule conjI)
qed

text \<open>
  Claim C9 as stated fails for the empty path: the tool \<open>Read\<close> with \<open>file_path\<close> the
  empty string has a path argument that the classifier marks as outside, and the hook
  continues without asking the classifier.
\<close>

theorem empty_path_counterexample:
  "vaultRestrictionHook exampleModules exampleContext
     (invocation ''Read'' [(''file_path'', JString [])]) [] = (Continue, []) \<and>
   isFileTool exampleModules ''Read'' \<and>
   getPathFromToolInput exampleModules ''Read''
     (extractToolInput (invocation ''Read'' [(''file_path'', JString [])])) = Some [] \<and>
   fst (getPathAccessType exampleContext [] []) = Outside"
  by (simp add: vaultRestrictionHook_def invocation_def isHookToolInput_def extractToolName_def
      extractToolInput_def TOOL_BASH_def exampleModules_def exampleContext_def)

text \<open>
  Claim C9, amended. For an invocation of a file tool other than Bash with a path
  argument: an empty path is not classified and the hook continues; a path that is not
  empty is classified once, and vault, readwrite and context continue, export continues
  exactly for an edit tool and is otherwise denied with the write-only reason, outside
  is denied with the outside-the-vault reason.
\<close>

theorem file_tool_path_verdict:
  assumes "isHookToolInput hookInput"
    and "extractToolName hookInput = toolName"
    and "toolName \<noteq> TOOL_BASH"
    and "isFileTool M toolName"
    and "getPathFromToolInput M toolName (extractToolInput hookInput) = Some path"
  shows "(path = [] \<longrightarrow> vaultRestrictionHook M ctx hookInput s = (Continue, s)) \<and>
         (path \<noteq> [] \<longrightarrow>
            (\<forall>accessType s1. getPathAccessType ctx path s = (accessType, s1) \<longrightarrow>
               vaultRestrictionHook M ctx hookInput s =
                 (case accessType of
                    Vault \<Rightarrow> Continue
                  | Readwrite \<Rightarrow> Continue
                  | Context \<Rightarrow> Continue
                  | Export \<Rightarrow>
                      if isEditTool M toolName then Continue
                      else Deny (''Access denied: Path '' @ [CHR 0x22] @ path @ [CHR 0x22] @
                                 '' is in an allowed export directory, but export paths are write-only.'')
                  | Outside \<Rightarrow>
                      Deny (''Access denied: Path '' @ [CHR 0x22] @ path @ [CHR 0x22] @
                            '' is outside the vault. Agent is restricted to vault directory only.''),
                  s1)))"
proof (intro conjI impI allI)
  assume "path = []"
  then show "vaultRestrictionHook M ctx hookInput s = (Continue, s)"
    using assms by (simp add: vaultRestrictionHook_def)
next
  fix accessType s1
  assume "path \<noteq> []" and "getPathAccessType ctx path s = (accessType, s1)"
  then show "vaultRestrictionHook M ctx hookInput s =
                 (case accessType of
                    Vault \<Rightarrow> Continue
                  | Readwrite \<Rightarrow> Continue
                  | Context \<Rightarrow> Continue
                  | Export \<Rightarrow>
                      if isEditTool M toolName then Continue
                      else Deny (''Access denied: Path '' @ [CHR 0x22] @ path @ [CHR 0x22] @
                                 '' is in an allowed export directory, but export paths are write-only.'')
                  | Outside \<Rightarrow>
                      Deny (''Access denied: Path '' @ [CHR 0x22] @ path @ [CHR 0x22] @
                            '' is outside the vault. Agent is restricted to vault directory only.''),
                  s1)"
    using assms
    by (cases accessType)
       (simp_all add: vaultRestrictionHook_def exportReason_def outsideReason_def dquote_def)
qed

text \<open>
  Witness for C9: the end-to-end scenario of the boundary classifier, and the empty
  path.
\<close>

theorem file_tool_path_verdict_witness:
  "vaultRestrictionHook exampleModules exampleContext
     (invocation ''Write'' [(''file_path'', JString ''/tmp/export/out.csv'')]) [] =
     (Continue, [GetPathAccessType ''/tmp/export/out.csv'']) \<and>
   vaultRestrictionHook exampleModules exampleContext
     (invocation ''Read'' [(''file_path'', JString ''/tmp/export/out.csv'')]) [] =
     (Deny (''Access denied: Path '' @ [CHR 0x22] @ ''/tmp/export/out.csv'' @ [CHR 0x22] @
            '' is in an allowed export directory, but export paths are write-only.''),
      [GetPathAccessType ''/tmp/export/out.csv'']) \<and>
   vaultRestrictionHook exampleModules exampleContext
     (invocation ''Edit'' [(''file_path'', JString ''/etc/hosts'')]) [] =
     (Deny (''Access denied: Path '' @ [CHR 0x22] @ ''/etc/hosts'' @ [CHR 0x22] @
            '' is outside the vault. Agent is restricted to vault directory only.''),
      [GetPathAccessType ''/etc/hosts'']) \<and>
   vaultRestrictionHook exampleModules exampleContext
     (invocation ''Read'' [(''file_path'', JString ''/vault/notes.md'')]) [] =
     (Continue, [GetPathAccessType ''/vault/notes.md'']) \<and>
   vaultRestrictionHook exampleModules exampleContext
     (invocation ''Read'' [(''file_path'', JString [])]) [] = (Continue, [])"
proof -
  have h: "isHookToolInput (invocation t [(''file_path'', JString p)])" for t p
    by (simp add: invocation_def isHookToolInput_def)
  have n: "extractToolName (invocation t [(''file_path'', JString p)]) = t" for t p
    by (simp add: invocation_def isHookToolInput_def extractToolName_def)
  have g: "getPathFromToolInput exampleModules t
             (extractToolInput (invocation t [(''file_path'', JString p)])) = Some p" for t p
    by (simp add: invocation_def isHookToolInput_def extractToolInput_def exampleModules_def)
  have b: "''Write'' \<noteq> TOOL_BASH" "''Read'' \<noteq> TOOL_BASH" "''Edit'' \<noteq> TOOL_BASH"
    by (simp_all add: TOOL_BASH_def)
  have f: "isFileTool exampleModules ''Write''" "isFileTool exampleModules ''Read''"
    "isFileTool exampleModules ''Edit''"
    by (simp_all add: exampleModules_def)
  have e: "isEditTool exampleModules ''Write''" "\<not> isEditTool exampleModules ''Read''"
    by (simp_all add: exampleModules_def)
  have a: "getPathAccessType exampleContext ''/tmp/export/out.csv'' [] =
             (Export, [GetPathAccessType ''/tmp/export/out.csv''])"
    "getPathAccessType exampleContext ''/etc/hosts'' [] = (Outside, [GetPathAccessType ''/etc/hosts''])"
    "getPathAccessType exampleContext ''/vault/notes.md'' [] =
             (Vault, [GetPathAccessType ''/vault/notes.md''])"
    by (simp_all add: exampleContext_def)
  note w = file_tool_path_verdict[
      where hookInput = "invocation ''Write'' [(''file_path'', JString ''/tmp/export/out.csv'')]"
        and M = exampleModules and ctx = exampleContext and s = "[]",
      OF h n b(1) f(1) g]
  note r = file_tool_path_verdict[
      where hookInput = "invocation ''Read'' [(''file_path'', JString ''/tmp/export/out.csv'')]"
        and M = exampleModules and ctx = exampleContext and s = "[]",
      OF h n b(2) f(2) g]
  note o = file_tool_path_verdict[
      where hookInput = "invocation ''Edit'' [(''file_path'', JString ''/etc/hosts'')]"
        and M = exampleModules and ctx = exampleContext and s = "[]",
      OF h n b(3) f(3) g]
  note v = file_tool_path_verdict[
      where hookInput = "invocation ''Read'' [(''file_path'', JString ''/vault/notes.md'')]"
        and M = exampleModules and ctx = exampleContext and s = "[]",
      OF h n b(2) f(2) g]
  note z = file_tool_path_verdict[
      where hookInput = "invocation ''Read'' [(''file_path'', JString [])]"
        and M = exampleModules and ctx = exampleContext and s = "[]",
      OF h n b(2) f(2) g]
  from w r o v z show ?thesis by (simp add: a e)
qed

end
